theory Spec2Isabelle
  imports
    Complex_Main
    "HOL-Library.Multiset"
    "HOL-Library.Char_ord"
    "HOL-Library.List_Lexorder"
    "HOL-Library.Product_Lexorder"
    "HOL-Library.AList"
begin

section \<open>Tab Tools: a shallow embedding of the algorithmic core\<close>

text \<open>
  The definitions below follow \<^verbatim>\<open>src/popup.js\<close> and \<^verbatim>\<open>src/background.js\<close>.
  Strings are \<^typ>\<open>string\<close>; the texts handled here (URLs, host names, window states,
  decimal numerals) are ASCII. Calls into the browser are made explicit: what a
  function would send to the host is returned as a value.
\<close>

subsection \<open>Saved sessions and the import merge (popup.js, \<^verbatim>\<open>importSessions\<close>)\<close>

text \<open>
  A saved session as \<^verbatim>\<open>saveSession\<close> (popup.js, line 343) writes it:
  \<^verbatim>\<open>
  const session = {
    timestamp: Date.now(),
    tabCount: tabs.length,
    urls: tabs.map(tab => tab.url),
    customName: null
  };
  \<close>
  The timestamp is an integer number of milliseconds.
\<close>

record session =
  timestamp :: int
  tabCount :: int
  urls :: "string list"
  customName :: "string option"

text \<open>
  The template literal \<^verbatim>\<open>`${session.timestamp}_${session.urls[0]}`\<close> converts both parts to
  strings. An integer (below \<open>10\<^sup>2\<^sup>1\<close> in magnitude, as every millisecond timestamp is) is
  rendered as its decimal numeral, with a leading minus sign when negative.
\<close>

definition digitChar :: "nat \<Rightarrow> char" where
  "digitChar d = ''0123456789'' ! d"

fun digits :: "nat \<Rightarrow> string" where
  "digits n = (if n < 10 then [digitChar n] else digits (n div 10) @ [digitChar (n mod 10)])"

definition numberToString :: "int \<Rightarrow> string" where
  "numberToString i = (if i < 0 then CHR ''-'' # digits (nat (- i)) else digits (nat i))"

text \<open>
  \<^verbatim>\<open>session.urls[0]\<close> inside the template literal: the first URL, and the text
  \<^verbatim>\<open>undefined\<close> when the array is empty (reading index 0 of an empty array yields
  \<^verbatim>\<open>undefined\<close>, which the template renders by name).
\<close>

definition firstUrl :: "session \<Rightarrow> string" where
  "firstUrl s = (case urls s of [] \<Rightarrow> ''undefined'' | u # _ \<Rightarrow> u)"

definition sessionId :: "session \<Rightarrow> string" where
  "sessionId s = numberToString (timestamp s) @ ''_'' @ firstUrl s"

text \<open>
  The merge step of \<^verbatim>\<open>importSessions\<close> (popup.js, lines 1142 to 1176):
  \<^verbatim>\<open>
  const existingSessionIds = new Set(
    currentSessions.map(session => `${session.timestamp}_${session.urls[0]}`));
  const newSessions = data.sessions.filter(session => {
    const sessionId = `${session.timestamp}_${session.urls[0]}`;
    return !existingSessionIds.has(sessionId);
  });
  const updatedSessions = [...newSessions, ...currentSessions];
  ...
  const importedCount = newSessions.length;
  const skippedCount = data.sessions.length - newSessions.length;
  \<close>
  The result holds the collection that is written back and the two counts of the
  feedback message.
\<close>

record mergeResult =
  merged :: "session list"
  addedCount :: int
  skippedCount :: int

definition mergeImport :: "session list \<Rightarrow> session list \<Rightarrow> mergeResult" where
  "mergeImport incoming currentSessions =
     (let existingSessionIds = map sessionId currentSessions;
          newSessions = filter (\<lambda>s. sessionId s \<notin> set existingSessionIds) incoming;
          updatedSessions = newSessions @ currentSessions
      in \<lparr> merged = updatedSessions,
           addedCount = int (length newSessions),
           skippedCount = int (length incoming) - int (length newSessions) \<rparr>)"

text \<open>
  The identity key of a session, \<^verbatim>\<open>(timestamp, urls[0])\<close>: its timestamp and its first URL,
  which a session without URLs does not have.
\<close>

definition identityKey :: "session \<Rightarrow> int \<times> string option" where
  "identityKey s = (timestamp s, if urls s = [] then None else Some (hd (urls s)))"

text \<open>
  The identity key with a missing first URL counted as the URL text \<^verbatim>\<open>undefined\<close>, so
  that a session without URLs and a session whose first URL is that text have one key.
\<close>

definition identityKeyAsText :: "session \<Rightarrow> int \<times> string" where
  "identityKeyAsText s =
     (timestamp s, case snd (identityKey s) of None \<Rightarrow> ''undefined'' | Some u \<Rightarrow> u)"

text \<open>The value of a decimal digit character; it reads a numeral back.\<close>

definition digitVal :: "char \<Rightarrow> nat" where
  "digitVal c = of_char c - 48"

subsection \<open>Tabs and duplicate detection (popup.js, \<^verbatim>\<open>closeDuplicates\<close>)\<close>

text \<open>
  A tab as the export writes it (\<^verbatim>\<open>{ url, active, pinned, title }\<close>), and a tab as
  \<^verbatim>\<open>chrome.tabs.query\<close> returns it, which also carries the identifier the host assigned.
\<close>

record tabData =
  url :: string
  active :: bool
  pinned :: bool
  title :: string

record tab = tabData +
  tabId :: nat

text \<open>\<^verbatim>\<open>String.prototype.toLowerCase\<close> on ASCII text.\<close>

definition toLowerChar :: "char \<Rightarrow> char" where
  "toLowerChar c =
     (case map_of (zip ''ABCDEFGHIJKLMNOPQRSTUVWXYZ'' ''abcdefghijklmnopqrstuvwxyz'') c of
        Some l \<Rightarrow> l
      | None \<Rightarrow> c)"

definition toLowerCase :: "string \<Rightarrow> string" where
  "toLowerCase s = map toLowerChar s"

text \<open>
  \<^verbatim>\<open>Set.prototype.add\<close>: a set keeps its members in insertion order and ignores a
  member it already has; its \<^verbatim>\<open>size\<close> is the length of the list.
\<close>

definition setAdd :: "'a \<Rightarrow> 'a list \<Rightarrow> 'a list" where
  "setAdd x xs = (if x \<in> set xs then xs else xs @ [x])"

text \<open>
  The body of the loop of \<^verbatim>\<open>closeDuplicates\<close> (popup.js, lines 231 to 246), on the
  state \<^verbatim>\<open>(uniqueURLs, tabsToClose)\<close>:
  \<^verbatim>\<open>
  for (const tab of allTabs) {
    const url = tab.url.toLowerCase();
    if (uniqueURLs.has(url)) {
      if (tab.id === activeTab.id) {
        tabsToClose.add(uniqueURLs.get(url).id);
        uniqueURLs.set(url, tab);
      } else {
        tabsToClose.add(tab.id);
      }
    } else {
      uniqueURLs.set(url, tab);
    }
  }
  \<close>
\<close>

definition dupStep ::
  "nat \<Rightarrow> (string \<rightharpoonup> tab) \<times> nat list \<Rightarrow> tab \<Rightarrow> (string \<rightharpoonup> tab) \<times> nat list" where
  "dupStep activeId st t =
     (case st of (uniqueURLs, tabsToClose) \<Rightarrow>
        let u = toLowerCase (url t) in
        (case uniqueURLs u of
           Some prev \<Rightarrow>
             if tabId t = activeId
             then (uniqueURLs(u \<mapsto> t), setAdd (tabId prev) tabsToClose)
             else (uniqueURLs, setAdd (tabId t) tabsToClose)
         | None \<Rightarrow> (uniqueURLs(u \<mapsto> t), tabsToClose)))"

text \<open>
  The pass over all tabs of the window, from the empty map and the empty set; the result
  is \<^verbatim>\<open>tabsToClose\<close>, the identifiers handed to \<^verbatim>\<open>chrome.tabs.remove\<close>
  (the specification calls it \<^verbatim>\<open>findDuplicates\<close>).
\<close>

definition closeDuplicates :: "tab \<Rightarrow> tab list \<Rightarrow> nat list" where
  "closeDuplicates activeTab allTabs =
     snd (foldl (dupStep (tabId activeTab)) (Map.empty, []) allTabs)"

text \<open>
  The loop invariant, after the tabs \<open>P\<close> have been visited: the map holds one kept tab
  for each lower-cased URL seen, no kept tab is marked for removal, every visited tab is
  either kept or marked, and a visited tab with the active identifier is kept.
\<close>

definition dupInv :: "nat \<Rightarrow> tab list \<Rightarrow> (string \<rightharpoonup> tab) \<times> nat list \<Rightarrow> bool" where
  "dupInv a P st \<longleftrightarrow>
     (case st of (m, c) \<Rightarrow>
        dom m = (\<lambda>t. toLowerCase (url t)) ` set P
      \<and> (\<forall>u t. m u = Some t \<longrightarrow> t \<in> set P \<and> toLowerCase (url t) = u \<and> tabId t \<notin> set c)
      \<and> distinct c
      \<and> set c \<subseteq> tabId ` set P
      \<and> (\<forall>t \<in> set P. tabId t \<in> set c \<or> m (toLowerCase (url t)) = Some t)
      \<and> (\<forall>t \<in> set P. tabId t = a \<longrightarrow> m (toLowerCase (url t)) = Some t)
      \<and> length c + card (dom m) = length P)"

subsection \<open>Import files (background.js \<^verbatim>\<open>importTabs\<close>, popup.js \<^verbatim>\<open>importSessions\<close>)\<close>

datatype error = SyntaxError | TypeError | InvalidFileFormat | HostError

text \<open>
  The value of a property of the parsed import file. \<open>JUndefined\<close> is what reading an
  absent property yields; the entries of an array are taken to be well-formed payload
  entries (windows or sessions, as the exporter writes them); \<open>JObject\<close> stands for any
  other object.
\<close>

datatype 'a jsValue =
    JUndefined
  | JNull
  | JBool bool
  | JNumber rat
  | JString string
  | JArray "'a list"
  | JObject

text \<open>The conversion to a boolean that \<^verbatim>\<open>!x\<close> applies.\<close>

fun truthy :: "'a jsValue \<Rightarrow> bool" where
  "truthy JUndefined = False"
| "truthy JNull = False"
| "truthy (JBool b) = b"
| "truthy (JNumber n) = (n \<noteq> 0)"
| "truthy (JString s) = (s \<noteq> [])"
| "truthy (JArray xs) = True"
| "truthy JObject = True"

fun isArray :: "'a jsValue \<Rightarrow> bool" where
  "isArray (JArray xs) = True"
| "isArray _ = False"

text \<open>
  The parsed file \<^verbatim>\<open>data\<close> is read through its properties only:
  \<open>data ''version''\<close> is \<^verbatim>\<open>data.version\<close>.
\<close>

type_synonym 'a jsObject = "string \<Rightarrow> 'a jsValue"

text \<open>
  The result of \<^verbatim>\<open>JSON.parse\<close> on the text of the file: it throws a \<^verbatim>\<open>SyntaxError\<close>, or
  yields \<^verbatim>\<open>null\<close> (whose properties cannot be read: a \<^verbatim>\<open>TypeError\<close>), or yields a value
  whose properties can be read (for a number, a string or a boolean every property read
  below is absent).
\<close>

datatype 'a parsed = NotJson | JsonNull | Parsed "'a jsObject"

text \<open>A file with a \<^verbatim>\<open>version\<close> and one payload property, every other property absent.\<close>

definition fileWith :: "'a jsValue \<Rightarrow> 'a jsValue \<Rightarrow> string \<Rightarrow> 'a jsObject" where
  "fileWith v p field = (\<lambda>k. if k = ''version'' then v else if k = field then p else JUndefined)"

subsection \<open>Replay of exported windows (background.js, \<^verbatim>\<open>createWindows\<close>)\<close>

text \<open>
  A window as \<^verbatim>\<open>generateURLList\<close> exports it:
  \<^verbatim>\<open>{ focused: win.focused, state: win.state, tabs: [...] }\<close>. The state is kept as the
  string found in the file.
\<close>

record windowData =
  focused :: bool
  state :: string
  tabs :: "tabData list"

text \<open>
  The calls the replay sends to the browser, in the order sent:
  \<^verbatim>\<open>chrome.windows.create({url, focused})\<close>,
  \<^verbatim>\<open>chrome.windows.update(id, {state})\<close>,
  \<^verbatim>\<open>chrome.tabs.update(id, {pinned: true})\<close> and
  \<^verbatim>\<open>chrome.tabs.update(id, {active: true})\<close>.
\<close>

datatype hostCall =
    WindowsCreate "string list" bool
  | WindowsUpdate nat string
  | TabsUpdatePinned nat
  | TabsUpdateActive nat

text \<open>The window object the browser returns: its identifier and the identifiers of its tabs.\<close>

record window =
  windowId :: nat
  windowTabs :: "nat list"

text \<open>
  The browser, as far as the replay sees it: given the calls made so far, whether a
  window is created (and which), and whether an update is accepted or rejected.
\<close>

record host =
  create :: "hostCall list \<Rightarrow> string list \<Rightarrow> bool \<Rightarrow> window option"
  accepts :: "hostCall list \<Rightarrow> hostCall \<Rightarrow> bool"

text \<open>
  \<^verbatim>\<open>window.tabs[i].id\<close>: past the end of the array the element is \<^verbatim>\<open>undefined\<close>
  and reading its \<^verbatim>\<open>id\<close> throws.
\<close>

definition tabIdAt :: "window \<Rightarrow> nat \<Rightarrow> error + nat" where
  "tabIdAt w i = (if i < length (windowTabs w) then Inr (windowTabs w ! i) else Inl TypeError)"

text \<open>An awaited update: the call is recorded, and a rejected call throws.\<close>

definition hostUpdate :: "host \<Rightarrow> hostCall list \<Rightarrow> hostCall \<Rightarrow> error option \<times> hostCall list" where
  "hostUpdate h trace c = (if accepts h trace c then None else Some HostError, trace @ [c])"

text \<open>
  \<^verbatim>\<open>
  for (let i = 0; i < windowData.tabs.length; i++) {
    if (windowData.tabs[i].pinned) {
      await chrome.tabs.update(window.tabs[i].id, { pinned: true });
    }
  }
  \<close>
  The result is the error thrown, if any, and the calls made.
\<close>

fun pinTabs ::
  "host \<Rightarrow> window \<Rightarrow> nat \<Rightarrow> tabData list \<Rightarrow> hostCall list \<Rightarrow> error option \<times> hostCall list" where
  "pinTabs h w i [] trace = (None, trace)"
| "pinTabs h w i (t # ts) trace =
     (if pinned t then
        (case tabIdAt w i of
           Inl e \<Rightarrow> (Some e, trace)
         | Inr tid \<Rightarrow>
             (case hostUpdate h trace (TabsUpdatePinned tid) of
                (Some e, trace') \<Rightarrow> (Some e, trace')
              | (None, trace') \<Rightarrow> pinTabs h w (Suc i) ts trace'))
      else pinTabs h w (Suc i) ts trace)"

text \<open>\<^verbatim>\<open>Array.prototype.findIndex\<close>, with \<open>None\<close> for \<^verbatim>\<open>-1\<close>.\<close>

fun findIndex :: "('a \<Rightarrow> bool) \<Rightarrow> 'a list \<Rightarrow> nat option" where
  "findIndex p [] = None"
| "findIndex p (x # xs) = (if p x then Some 0 else map_option Suc (findIndex p xs))"

text \<open>
  \<^verbatim>\<open>
  const activeTabIndex = windowData.tabs.findIndex(tab => tab.active);
  if (activeTabIndex !== -1) {
    await chrome.tabs.update(window.tabs[activeTabIndex].id, { active: true });
  }
  \<close>
\<close>

definition activateTab ::
  "host \<Rightarrow> window \<Rightarrow> tabData list \<Rightarrow> hostCall list \<Rightarrow> error option \<times> hostCall list" where
  "activateTab h w ts trace =
     (case findIndex active ts of
        None \<Rightarrow> (None, trace)
      | Some activeTabIndex \<Rightarrow>
          (case tabIdAt w activeTabIndex of
             Inl e \<Rightarrow> (Some e, trace)
           | Inr tid \<Rightarrow> hostUpdate h trace (TabsUpdateActive tid)))"

text \<open>
  \<^verbatim>\<open>
  const state = String(windowData.state).toLowerCase();
  if (['minimized', 'maximized', 'normal'].includes(state)) {
    await chrome.windows.update(window.id, { state: state });
  }
  \<close>
\<close>

definition setWindowState ::
  "host \<Rightarrow> window \<Rightarrow> string \<Rightarrow> hostCall list \<Rightarrow> error option \<times> hostCall list" where
  "setWindowState h w st trace =
     (let state = toLowerCase st in
      if state \<in> set [''minimized'', ''maximized'', ''normal'']
      then hostUpdate h trace (WindowsUpdate (windowId w) state)
      else (None, trace))"

text \<open>
  The body of the loop over the windows, inside its own \<^verbatim>\<open>try\<close>: create the window
  from the tab URLs and the focus flag, then set the state, pin, and activate. The first
  error ends the work on this window; it is caught and logged, and returned here beside
  the calls made.
\<close>

definition createWindow ::
  "host \<Rightarrow> windowData \<Rightarrow> hostCall list \<Rightarrow> error option \<times> hostCall list" where
  "createWindow h windowData trace =
     (let urls = map url (tabs windowData);
          trace1 = trace @ [WindowsCreate urls (focused windowData)]
      in case create h trace urls (focused windowData) of
           None \<Rightarrow> (Some HostError, trace1)
         | Some w \<Rightarrow>
             (case setWindowState h w (state windowData) trace1 of
                (Some e, trace2) \<Rightarrow> (Some e, trace2)
              | (None, trace2) \<Rightarrow>
                  (case pinTabs h w 0 (tabs windowData) trace2 of
                     (Some e, trace3) \<Rightarrow> (Some e, trace3)
                   | (None, trace3) \<Rightarrow> activateTab h w (tabs windowData) trace3)))"

text \<open>
  \<^verbatim>\<open>for (const windowData of data.windows) { try { ... } catch (error) { console.error(...) } }\<close>:
  the windows one after the other. The state is the log (one entry per window: the error
  caught, or none) and the calls made so far.
\<close>

fun createWindows ::
  "host \<Rightarrow> windowData list \<Rightarrow> error option list \<times> hostCall list \<Rightarrow>
   error option list \<times> hostCall list" where
  "createWindows h [] st = st"
| "createWindows h (w # ws) (errors, trace) =
     (case createWindow h w trace of
        (e, trace') \<Rightarrow> createWindows h ws (errors @ [e], trace'))"

datatype response = Success | Failure error

text \<open>
  The \<^verbatim>\<open>importTabs\<close> message handler (background.js, lines 85 to 142). The argument is
  the result of \<^verbatim>\<open>JSON.parse(file)\<close>.
  \<^verbatim>\<open>
  const data = JSON.parse(file);
  if (!data.version || !data.windows) {
    throw new Error('Invalid file format');
  }
  async function createWindows() { for (const windowData of data.windows) ... }
  createWindows().then(() => sendResponse({ success: true }))
                 .catch(error => sendResponse({ success: false, error: error.message }));
  \<close>
  A string is iterated character by character, and a character has no \<^verbatim>\<open>tabs\<close>: each
  throws inside its own \<^verbatim>\<open>try\<close> before any call. Any other value that is not an array
  is not iterable. The result is the response, the log and the calls made.
\<close>

definition importTabs ::
  "host \<Rightarrow> windowData parsed \<Rightarrow> response \<times> error option list \<times> hostCall list" where
  "importTabs h file =
     (case file of
        NotJson \<Rightarrow> (Failure SyntaxError, [], [])
      | JsonNull \<Rightarrow> (Failure TypeError, [], [])
      | Parsed data \<Rightarrow>
          if \<not> truthy (data ''version'') \<or> \<not> truthy (data ''windows'')
          then (Failure InvalidFileFormat, [], [])
          else (case data ''windows'' of
                  JArray ws \<Rightarrow> (Success, createWindows h ws ([], []))
                | JString s \<Rightarrow> (Success, map (\<lambda>c. Some TypeError) s, [])
                | _ \<Rightarrow> (Failure TypeError, [], [])))"

text \<open>
  \<^verbatim>\<open>importSessions\<close> (popup.js, lines 1120 to 1176), on the parsed file and the stored
  collection; the result is the outcome and the collection stored afterwards.
  \<^verbatim>\<open>
  const data = JSON.parse(text);
  if (!data.version || !Array.isArray(data.sessions)) {
    throw new Error('Invalid file format');
  }
  const result = await chrome.storage.local.get('sessions');
  const currentSessions = result.sessions || [];
  ...
  await chrome.storage.local.set({ sessions: updatedSessions });
  \<close>
\<close>

definition importSessions ::
  "session parsed \<Rightarrow> session list \<Rightarrow> (error + mergeResult) \<times> session list" where
  "importSessions file currentSessions =
     (case file of
        NotJson \<Rightarrow> (Inl SyntaxError, currentSessions)
      | JsonNull \<Rightarrow> (Inl TypeError, currentSessions)
      | Parsed data \<Rightarrow>
          if \<not> truthy (data ''version'') \<or> \<not> isArray (data ''sessions'')
          then (Inl InvalidFileFormat, currentSessions)
          else (case data ''sessions'' of
                  JArray incoming \<Rightarrow>
                    (let r = mergeImport incoming currentSessions in (Inr r, merged r))
                | _ \<Rightarrow> (Inl InvalidFileFormat, currentSessions)))"

text \<open>
  A browser that never fails: it accepts every call and returns a window with one tab
  per URL; identifiers are derived from the number of calls made before.
\<close>

definition idealHost :: host where
  "idealHost =
     \<lparr> create = (\<lambda>trace urls f.
          Some \<lparr> windowId = length trace,
                 windowTabs = map (\<lambda>i. 100 * length trace + i) [0..<length urls] \<rparr>),
       accepts = (\<lambda>trace c. True) \<rparr>"

text \<open>Any browser that never fails.\<close>

definition acceptingHost :: "host \<Rightarrow> bool" where
  "acceptingHost h \<longleftrightarrow>
     (\<forall>trace us f. \<exists>w. create h trace us f = Some w \<and> length (windowTabs w) = length us)
     \<and> (\<forall>trace c. accepts h trace c)"

text \<open>The three window states the replay applies.\<close>

definition recognisedStates :: "string list" where
  "recognisedStates = [''minimized'', ''maximized'', ''normal'']"

text \<open>
  What a call made for window \<open>w\<close> after its creation can be: a state update carries the
  lower-cased state of \<open>w\<close>, which is then a recognised one.
\<close>

fun laterCall :: "windowData \<Rightarrow> hostCall \<Rightarrow> bool" where
  "laterCall w (WindowsCreate us f) = False"
| "laterCall w (WindowsUpdate wid s) = (s = toLowerCase (state w) \<and> s \<in> set recognisedStates)"
| "laterCall w (TabsUpdatePinned tid) = True"
| "laterCall w (TabsUpdateActive tid) = True"

fun isCreate :: "hostCall \<Rightarrow> bool" where
  "isCreate (WindowsCreate us f) = True"
| "isCreate _ = False"

subsection \<open>URLs (popup.js, \<^verbatim>\<open>isValidUrl\<close>, \<^verbatim>\<open>sanitizeUrl\<close>, \<^verbatim>\<open>extractUrls\<close>)\<close>

text \<open>
  The object \<^verbatim>\<open>new URL(s)\<close> returns, with the properties the code reads. Its
  serialization (\<^verbatim>\<open>toString()\<close>, the \<^verbatim>\<open>href\<close>) starts with the scheme and its colon,
  which is the \<^verbatim>\<open>protocol\<close> property; \<open>hrefTail\<close> is what follows.
\<close>

record URL =
  protocol :: string
  hostname :: string
  pathname :: string
  hrefTail :: string

definition href :: "URL \<Rightarrow> string" where
  "href u = protocol u @ hrefTail u"

text \<open>
  The URL parser is the browser's and not part of the repository: it is a parameter of
  every function that calls \<^verbatim>\<open>new URL\<close>. \<open>None\<close> stands for the \<^verbatim>\<open>TypeError\<close> thrown
  on an input that does not parse.
\<close>

type_synonym urlParser = "string \<Rightarrow> URL option"

text \<open>
  Regular expressions, as far as the host name test needs them, and their matching by
  derivatives: \<open>Cls cs\<close> is one character of \<open>cs\<close>, \<open>Upto n r\<close> is \<^verbatim>\<open>r{0,n}\<close>.
  \<open>rxTest r s\<close> is \<^verbatim>\<open>/^r$/.test(s)\<close>.
\<close>

datatype rx =
    Empty
  | Eps
  | Cls string
  | Alt rx rx
  | Seq rx rx
  | Star rx
  | Upto nat rx

fun nullable :: "rx \<Rightarrow> bool" where
  "nullable Empty = False"
| "nullable Eps = True"
| "nullable (Cls cs) = False"
| "nullable (Alt r s) = (nullable r \<or> nullable s)"
| "nullable (Seq r s) = (nullable r \<and> nullable s)"
| "nullable (Star r) = True"
| "nullable (Upto n r) = True"

fun deriv :: "char \<Rightarrow> rx \<Rightarrow> rx" where
  "deriv c Empty = Empty"
| "deriv c Eps = Empty"
| "deriv c (Cls cs) = (if c \<in> set cs then Eps else Empty)"
| "deriv c (Alt r s) = Alt (deriv c r) (deriv c s)"
| "deriv c (Seq r s) =
     (if nullable r then Alt (Seq (deriv c r) s) (deriv c s) else Seq (deriv c r) s)"
| "deriv c (Star r) = Seq (deriv c r) (Star r)"
| "deriv c (Upto n r) = (if n = 0 then Empty else Seq (deriv c r) (Upto (n - 1) r))"

definition rxTest :: "rx \<Rightarrow> string \<Rightarrow> bool" where
  "rxTest r s = nullable (foldl (\<lambda>r c. deriv c r) r s)"

text \<open>
  The strings a regular expression matches as a whole: concatenation, iteration, and
  at most \<open>n\<close> repetitions.
\<close>

definition conc :: "string set \<Rightarrow> string set \<Rightarrow> string set" where
  "conc A B = {u @ v | u v. u \<in> A \<and> v \<in> B}"

inductive_set star :: "string set \<Rightarrow> string set" for A :: "string set" where
  star_empty: "[] \<in> star A"
| star_more: "u \<in> A \<Longrightarrow> v \<in> star A \<Longrightarrow> u @ v \<in> star A"

fun repeatUpTo :: "nat \<Rightarrow> string set \<Rightarrow> string set" where
  "repeatUpTo 0 A = {[]}"
| "repeatUpTo (Suc n) A = insert [] (conc A (repeatUpTo n A))"

fun lang :: "rx \<Rightarrow> string set" where
  "lang Empty = {}"
| "lang Eps = {[]}"
| "lang (Cls cs) = (\<lambda>c. [c]) ` set cs"
| "lang (Alt r s) = lang r \<union> lang s"
| "lang (Seq r s) = conc (lang r) (lang s)"
| "lang (Star r) = star (lang r)"
| "lang (Upto n r) = repeatUpTo n (lang r)"

text \<open>
  The host name pattern of \<^verbatim>\<open>isValidUrl\<close>:
  \<^verbatim>\<open>/^[a-zA-Z0-9]([a-zA-Z0-9-]{0,61}[a-zA-Z0-9])?(\.[a-zA-Z0-9]([a-zA-Z0-9-]{0,61}[a-zA-Z0-9])?)*\.[a-zA-Z]{2,}$/\<close>
\<close>

definition alpha :: string where
  "alpha = ''abcdefghijklmnopqrstuvwxyzABCDEFGHIJKLMNOPQRSTUVWXYZ''"

definition alnum :: string where
  "alnum = alpha @ ''0123456789''"

definition hostLabel :: rx where
  "hostLabel = Seq (Cls alnum) (Alt Eps (Seq (Upto 61 (Cls (alnum @ ''-''))) (Cls alnum)))"

definition hostnameRx :: rx where
  "hostnameRx =
     Seq hostLabel
       (Seq (Star (Seq (Cls ''.'') hostLabel))
         (Seq (Cls ''.'') (Seq (Cls alpha) (Seq (Cls alpha) (Star (Cls alpha))))))"

text \<open>The character class \<^verbatim>\<open>[<>'"()]\<close> and the list \<^verbatim>\<open>['http:', 'https:', 'ftp:']\<close>.\<close>

definition suspicious :: string where
  "suspicious = [CHR ''<'', CHR ''>'', CHR 0x27, CHR 0x22, CHR ''('', CHR '')'']"

definition allowedProtocols :: "string list" where
  "allowedProtocols = [''http:'', ''https:'', ''ftp:'']"

text \<open>
  \<^verbatim>\<open>
  function isValidUrl(url) {
    try {
      const urlObj = new URL(url);
      if (!['http:', 'https:', 'ftp:'].includes(urlObj.protocol)) return false;
      if (!/^...$/.test(urlObj.hostname)) return false;
      if (/[<>'"()]/.test(urlObj.pathname)) return false;
      return true;
    } catch { return false; }
  }
  \<close>
\<close>

definition isValidUrl :: "urlParser \<Rightarrow> string \<Rightarrow> bool" where
  "isValidUrl parse input =
     (case parse input of
        None \<Rightarrow> False
      | Some urlObj \<Rightarrow>
          if protocol urlObj \<notin> set allowedProtocols then False
          else if \<not> rxTest hostnameRx (hostname urlObj) then False
          else if list_ex (\<lambda>c. c \<in> set suspicious) (pathname urlObj) then False
          else True)"

text \<open>
  \<^verbatim>\<open>.replace(/<[^>]*>/g, '')\<close>: from left to right, a \<^verbatim>\<open><\<close> that has a \<^verbatim>\<open>>\<close>
  somewhere after it is removed together with everything up to the first such \<^verbatim>\<open>>\<close>;
  any other character is kept.
\<close>

function removeTags :: "string \<Rightarrow> string" where
  "removeTags [] = []"
| "removeTags (c # cs) =
     (if c = CHR ''<'' \<and> CHR ''>'' \<in> set cs
      then removeTags (tl (dropWhile (\<lambda>x. x \<noteq> CHR ''>'') cs))
      else c # removeTags cs)"
  by pat_completeness auto
termination
proof (relation "measure length")
  fix c :: char and cs :: string
  have "length (dropWhile (\<lambda>x. x \<noteq> CHR ''>'') cs) \<le> length cs"
    by (rule length_dropWhile_le)
  then have "length (tl (dropWhile (\<lambda>x. x \<noteq> CHR ''>'') cs)) \<le> length cs"
    by simp
  then show "(tl (dropWhile (\<lambda>x. x \<noteq> CHR ''>'') cs), c # cs) \<in> measure length"
    by simp
qed simp_all

text \<open>\<^verbatim>\<open>.replace(/[<>'"()]/g, '')\<close>\<close>

definition removeSuspicious :: "string \<Rightarrow> string" where
  "removeSuspicious s = filter (\<lambda>c. c \<notin> set suspicious) s"

text \<open>
  \<^verbatim>\<open>
  function sanitizeUrl(url) {
    try {
      const urlObj = new URL(url);
      if (!['http:', 'https:', 'ftp:'].includes(urlObj.protocol)) return '';
      return urlObj.toString().replace(/<[^>]*>/g, '').replace(/[<>'"()]/g, '');
    } catch { return ''; }
  }
  \<close>
\<close>

definition sanitizeUrl :: "urlParser \<Rightarrow> string \<Rightarrow> string" where
  "sanitizeUrl parse input =
     (case parse input of
        None \<Rightarrow> []
      | Some urlObj \<Rightarrow>
          if protocol urlObj \<notin> set allowedProtocols then []
          else removeSuspicious (removeTags (href urlObj)))"







text \<open>
  What \<^verbatim>\<open>new URL\<close> returns, by the URL Standard, for the inputs of the examples below
  (a missing path becomes \<^verbatim>\<open>/\<close>, a \<^verbatim>\<open>..\<close> segment is resolved, the segment
  \<^verbatim>\<open>.(.\<close> is an ordinary one); every other input is left out of the table.
\<close>

definition whatwgSample :: urlParser where
  "whatwgSample = map_of
     [(''https://a.com'',
         \<lparr>protocol = ''https:'', hostname = ''a.com'', pathname = ''/'', hrefTail = ''//a.com/''\<rparr>),
      (''https://a.com/'',
         \<lparr>protocol = ''https:'', hostname = ''a.com'', pathname = ''/'', hrefTail = ''//a.com/''\<rparr>),
      (''https://b.co.uk'',
         \<lparr>protocol = ''https:'', hostname = ''b.co.uk'', pathname = ''/'', hrefTail = ''//b.co.uk/''\<rparr>),
      (''https://b.co.uk/'',
         \<lparr>protocol = ''https:'', hostname = ''b.co.uk'', pathname = ''/'', hrefTail = ''//b.co.uk/''\<rparr>),
      (''http://a.com/.(./x'',
         \<lparr>protocol = ''http:'', hostname = ''a.com'', pathname = ''/.(./x'',
          hrefTail = ''//a.com/.(./x''\<rparr>),
      (''http://a.com/../x'',
         \<lparr>protocol = ''http:'', hostname = ''a.com'', pathname = ''/x'', hrefTail = ''//a.com/x''\<rparr>),
      (''http://a.com/x'',
         \<lparr>protocol = ''http:'', hostname = ''a.com'', pathname = ''/x'', hrefTail = ''//a.com/x''\<rparr>),
      (''javascript:alert(1)'',
         \<lparr>protocol = ''javascript:'', hostname = [], pathname = ''alert(1)'',
          hrefTail = ''alert(1)''\<rparr>),
      (''https://example.com/a'',
         \<lparr>protocol = ''https:'', hostname = ''example.com'', pathname = ''/a'',
          hrefTail = ''//example.com/a''\<rparr>),
      (''http://constructor/'',
         \<lparr>protocol = ''http:'', hostname = ''constructor'', pathname = ''/'',
          hrefTail = ''//constructor/''\<rparr>),
      (''http://constructor.example.com/'',
         \<lparr>protocol = ''http:'', hostname = ''constructor.example.com'', pathname = ''/'',
          hrefTail = ''//constructor.example.com/''\<rparr>)]"


text \<open>
  The serialization is stable under parsing: the serialization of a parsed URL parses
  to a URL with the same serialization and scheme.
\<close>

definition reparses :: "urlParser \<Rightarrow> bool" where
  "reparses parse \<longleftrightarrow>
     (\<forall>s u. parse s = Some u \<longrightarrow>
        (\<exists>u'. parse (href u) = Some u' \<and> href u' = href u \<and> protocol u' = protocol u))"


subsection \<open>Grouping tabs by domain (popup.js, \<^verbatim>\<open>groupTabs\<close>)\<close>

text \<open>
  \<^verbatim>\<open>url.hostname.split('.')\<close>: the labels between the dots; the empty string gives one
  empty label.
\<close>

fun splitDot :: "string \<Rightarrow> string list" where
  "splitDot [] = [[]]"
| "splitDot (c # cs) =
     (if c = CHR ''.'' then [] # splitDot cs
      else (case splitDot cs of p # ps \<Rightarrow> (c # p) # ps | [] \<Rightarrow> [[c]]))"

text \<open>\<^verbatim>\<open>parts.join('.')\<close>\<close>

fun joinDot :: "string list \<Rightarrow> string" where
  "joinDot [] = []"
| "joinDot [p] = p"
| "joinDot (p # ps) = p @ ''.'' @ joinDot ps"

text \<open>
  \<^verbatim>\<open>
  let parts = url.hostname.split('.');
  let baseDomain = parts.slice(-2).join('.');
  let subdomain = parts.slice(0, -2).join('.');
  \<close>
  \<^verbatim>\<open>slice(-2)\<close> keeps the last two labels (all of them when there are fewer), and
  \<^verbatim>\<open>slice(0, -2)\<close> the labels before them.
\<close>

definition baseDomain :: "string \<Rightarrow> string" where
  "baseDomain host = (let parts = splitDot host in joinDot (drop (length parts - 2) parts))"

definition subdomain :: "string \<Rightarrow> string" where
  "subdomain host = (let parts = splitDot host in joinDot (take (length parts - 2) parts))"

text \<open>
  \<^verbatim>\<open>groupedTabs\<close> starts as the object literal \<^verbatim>\<open>{}\<close>, and so does every inner object.
  Reading a property of such an object that it does not own continues in
  \<^verbatim>\<open>Object.prototype\<close>, whose own property names are the following (the standard's, with
  the accessors every browser adds); each of them yields a function, except
  \<^verbatim>\<open>__proto__\<close>, which yields \<^verbatim>\<open>Object.prototype\<close> itself.
\<close>

definition objectPrototypeKeys :: "string list" where
  "objectPrototypeKeys =
     [''constructor'', ''__defineGetter__'', ''__defineSetter__'', ''hasOwnProperty'',
      ''__lookupGetter__'', ''__lookupSetter__'', ''isPrototypeOf'', ''propertyIsEnumerable'',
      ''toString'', ''valueOf'', ''__proto__'', ''toLocaleString'']"

text \<open>
  The own properties of \<^verbatim>\<open>groupedTabs\<close> and of its inner objects, as association lists
  from property name to value, in the order of creation.
\<close>

type_synonym inner = "(string \<times> tab list) list"
type_synonym grouped = "(string \<times> inner) list"

text \<open>
  The last two statements of the loop body, for an inner object that \<^verbatim>\<open>groupedTabs\<close>
  owns:
  \<^verbatim>\<open>
  if (!groupedTabs[baseDomain][subdomain]) {
    groupedTabs[baseDomain][subdomain] = [];
  }
  groupedTabs[baseDomain][subdomain].push(tab);
  \<close>
  \<^item> When the inner object owns \<^verbatim>\<open>subdomain\<close>, the tab is appended to that array.
  \<^item> Otherwise, when \<^verbatim>\<open>subdomain\<close> names a property of \<^verbatim>\<open>Object.prototype\<close>, the read
    yields that function (or \<^verbatim>\<open>Object.prototype\<close>); it is truthy, so no array is
    created, and it has no \<^verbatim>\<open>push\<close>: the call throws a \<^verbatim>\<open>TypeError\<close>.
  \<^item> Otherwise, when \<^verbatim>\<open>subdomain\<close> is empty and \<^verbatim>\<open>Object.prototype\<close> has been given a
    property named by the empty string (\<open>polluted\<close>, see \<open>groupStep\<close>), the read yields
    that array, and the tab is appended to it: the inner object is unchanged.
  \<^item> Otherwise the read yields \<^verbatim>\<open>undefined\<close>, and a new array holding the tab is created.
\<close>

definition pushInto :: "bool \<Rightarrow> inner \<Rightarrow> string \<Rightarrow> tab \<Rightarrow> error + inner" where
  "pushInto polluted inner sub t =
     (case map_of inner sub of
        Some arr \<Rightarrow> Inr (AList.update sub (arr @ [t]) inner)
      | None \<Rightarrow>
          if sub \<in> set objectPrototypeKeys then Inl TypeError
          else if sub = [] \<and> polluted then Inr inner
          else Inr (AList.update sub [t] inner))"

text \<open>
  The body of the first loop for one tab, on the own properties of \<^verbatim>\<open>groupedTabs\<close> and
  the flag \<open>polluted\<close> (whether \<^verbatim>\<open>Object.prototype\<close> owns an array under the empty name):
  \<^verbatim>\<open>
  if (!groupedTabs[baseDomain]) {
    groupedTabs[baseDomain] = {};
  }
  \<close>
  followed by the two statements above.
  \<^item> When \<^verbatim>\<open>groupedTabs\<close> owns \<^verbatim>\<open>baseDomain\<close>, the inner object is used.
  \<^item> Otherwise, when \<^verbatim>\<open>baseDomain\<close> names a property of \<^verbatim>\<open>Object.prototype\<close>, the read
    yields that built-in object and nothing is created. Such a name has no dot, so the
    host is this one label and \<^verbatim>\<open>subdomain\<close> is empty: the built-in object has no
    property of the empty name unless one was stored before, so an array is stored on the
    built-in object (or the stored one is found), and the tab is appended to it. Nothing
    is thrown and \<^verbatim>\<open>groupedTabs\<close> is unchanged. For \<^verbatim>\<open>__proto__\<close> the built-in object
    is \<^verbatim>\<open>Object.prototype\<close>, which from then on owns an array under the empty name.
  \<^item> Otherwise, when \<^verbatim>\<open>baseDomain\<close> is empty and \<^verbatim>\<open>Object.prototype\<close> owns an array
    under the empty name, the read yields that array; the host is empty, so is
    \<^verbatim>\<open>subdomain\<close>, the array inherits itself under the empty name, and the tab is
    appended to it.
  \<^item> Otherwise the read yields \<^verbatim>\<open>undefined\<close>: an empty inner object is created and used.
\<close>

definition groupStep :: "string \<Rightarrow> tab \<Rightarrow> grouped \<times> bool \<Rightarrow> error + grouped \<times> bool" where
  "groupStep host t st =
     (case st of (groupedTabs, polluted) \<Rightarrow>
        let base = baseDomain host; sub = subdomain host in
        (case map_of groupedTabs base of
           Some inner \<Rightarrow>
             (case pushInto polluted inner sub t of
                Inl e \<Rightarrow> Inl e
              | Inr inner' \<Rightarrow> Inr (AList.update base inner' groupedTabs, polluted))
         | None \<Rightarrow>
             if base \<in> set objectPrototypeKeys
             then Inr (groupedTabs, polluted \<or> base = ''__proto__'')
             else if base = [] \<and> polluted then Inr (groupedTabs, polluted)
             else (case pushInto polluted [] sub t of
                     Inl e \<Rightarrow> Inl e
                   | Inr inner' \<Rightarrow> Inr (AList.update base inner' groupedTabs, polluted))))"

text \<open>
  \<^verbatim>\<open>tabs.forEach(function (tab) { let url = new URL(tab.url); ... })\<close>: the first loop.
  A URL that does not parse throws, and so does a step; either ends the whole function in
  its \<^verbatim>\<open>catch\<close>.
\<close>

fun groupPass1 :: "urlParser \<Rightarrow> tab list \<Rightarrow> grouped \<times> bool \<Rightarrow> error + grouped \<times> bool" where
  "groupPass1 parse [] st = Inr st"
| "groupPass1 parse (t # ts) st =
     (case parse (url t) of
        None \<Rightarrow> Inl TypeError
      | Some u \<Rightarrow>
          (case groupStep (hostname u) t st of
             Inl e \<Rightarrow> Inl e
           | Inr st' \<Rightarrow> groupPass1 parse ts st'))"

text \<open>
  The second loop:
  \<^verbatim>\<open>
  let newOrder = [];
  Object.keys(groupedTabs).sort().forEach(function (baseDomain) {
    Object.keys(groupedTabs[baseDomain]).sort().forEach(function (subdomain) {
      newOrder = newOrder.concat(groupedTabs[baseDomain][subdomain]);
    });
  });
  \<close>
  \<^verbatim>\<open>Object.keys\<close> lists the own properties, and \<^verbatim>\<open>sort()\<close> orders strings by their code
  units, which is the lexicographic order of \<^typ>\<open>string\<close>.
\<close>

definition bucketsOf :: "inner \<Rightarrow> tab list" where
  "bucketsOf inner =
     concat (map (\<lambda>sub. case map_of inner sub of Some arr \<Rightarrow> arr | None \<Rightarrow> [])
                 (sort (map fst inner)))"

definition newOrderOf :: "grouped \<Rightarrow> tab list" where
  "newOrderOf groupedTabs =
     concat (map (\<lambda>base. case map_of groupedTabs base of Some inner \<Rightarrow> bucketsOf inner | None \<Rightarrow> [])
                 (sort (map fst groupedTabs)))"

text \<open>
  Both loops, from a given state of \<^verbatim>\<open>Object.prototype\<close>: the result is \<^verbatim>\<open>newOrder\<close>,
  the order in which the tabs are then moved to the positions 0, 1, 2, ..., and the
  state of \<^verbatim>\<open>Object.prototype\<close> afterwards. \<open>groupTabs\<close> is the run in a popup that has
  just been opened.
\<close>

definition groupPass :: "urlParser \<Rightarrow> bool \<Rightarrow> tab list \<Rightarrow> error + tab list \<times> bool" where
  "groupPass parse polluted allTabs =
     (case groupPass1 parse allTabs ([], polluted) of
        Inl e \<Rightarrow> Inl e
      | Inr (groupedTabs, polluted') \<Rightarrow> Inr (newOrderOf groupedTabs, polluted'))"

definition groupTabs :: "urlParser \<Rightarrow> tab list \<Rightarrow> error + tab list" where
  "groupTabs parse allTabs =
     (case groupPass parse False allTabs of Inl e \<Rightarrow> Inl e | Inr (newOrder, _) \<Rightarrow> Inr newOrder)"

text \<open>
  The key of a tab, \<^verbatim>\<open>(baseDomain, subdomain)\<close>, and the order of the keys: by base domain,
  and by subdomain within a base domain.
\<close>

definition tabKey :: "urlParser \<Rightarrow> tab \<Rightarrow> string \<times> string" where
  "tabKey parse t =
     (case parse (url t) of
        None \<Rightarrow> ([], [])
      | Some u \<Rightarrow> (baseDomain (hostname u), subdomain (hostname u)))"

definition keyLe :: "string \<times> string \<Rightarrow> string \<times> string \<Rightarrow> bool" where
  "keyLe k k' \<longleftrightarrow> fst k < fst k' \<or> (fst k = fst k' \<and> snd k \<le> snd k')"

text \<open>
  For the proofs: the array \<^verbatim>\<open>groupedTabs[b][s]\<close> when owned (else empty); the shape of
  the object (distinct property names, no name of \<^verbatim>\<open>Object.prototype\<close> among its own, no
  empty array); the keys whose tabs are appended elsewhere; the invariant of the first
  loop after the tabs \<open>P\<close>: each bucket holds all tabs of \<open>P\<close> with its key in their order,
  or it is absent and its key is one whose tabs are appended elsewhere.
\<close>

definition bucketAt :: "grouped \<Rightarrow> string \<Rightarrow> string \<Rightarrow> tab list" where
  "bucketAt g b s =
     (case map_of g b of
        Some inner \<Rightarrow> (case map_of inner s of Some arr \<Rightarrow> arr | None \<Rightarrow> [])
      | None \<Rightarrow> [])"

definition wellFormed :: "grouped \<Rightarrow> bool" where
  "wellFormed g \<longleftrightarrow>
     distinct (map fst g)
     \<and> (\<forall>b inner. map_of g b = Some inner \<longrightarrow>
           b \<notin> set objectPrototypeKeys \<and> distinct (map fst inner)
           \<and> (\<forall>s arr. map_of inner s = Some arr \<longrightarrow> arr \<noteq> []))"

definition dead :: "bool \<Rightarrow> string \<Rightarrow> string \<Rightarrow> bool" where
  "dead polluted b s \<longleftrightarrow> b \<in> set objectPrototypeKeys \<or> (polluted \<and> s = [])"

definition passInv :: "urlParser \<Rightarrow> tab list \<Rightarrow> grouped \<Rightarrow> bool \<Rightarrow> bool" where
  "passInv parse P g polluted \<longleftrightarrow>
     wellFormed g
     \<and> (\<forall>b s. bucketAt g b s = filter (\<lambda>t. tabKey parse t = (b, s)) P
              \<or> (bucketAt g b s = [] \<and> dead polluted b s))"

definition keyed :: "(tab \<Rightarrow> string \<times> string) \<Rightarrow> grouped \<Rightarrow> bool" where
  "keyed key g \<longleftrightarrow> (\<forall>b s t. t \<in> set (bucketAt g b s) \<longrightarrow> key t = (b, s))"

text \<open>
  A tab list in which every URL parses and neither part of a key is a property name of
  \<^verbatim>\<open>Object.prototype\<close>.
\<close>

definition collisionFree :: "urlParser \<Rightarrow> tab list \<Rightarrow> bool" where
  "collisionFree parse ts \<longleftrightarrow>
     (\<forall>t \<in> set ts. \<exists>u. parse (url t) = Some u
        \<and> baseDomain (hostname u) \<notin> set objectPrototypeKeys
        \<and> subdomain (hostname u) \<notin> set objectPrototypeKeys)"

section \<open>Properties\<close>

subsection \<open>The session identifier and the identity key\<close>

lemma digitChar_cases:
  "d < 10 \<Longrightarrow> digitChar d \<in> set ''0123456789'' \<and> digitVal (digitChar d) = d"
proof -
  assume "d < 10"
  then have "d = 0 \<or> d = 1 \<or> d = 2 \<or> d = 3 \<or> d = 4 \<or> d = 5 \<or> d = 6 \<or> d = 7 \<or> d = 8 \<or> d = 9"
    by arith
  then show ?thesis
    by (elim disjE) (simp_all add: digitChar_def digitVal_def)
qed

lemma digits_chars: "set (digits n) \<subseteq> set ''0123456789''"
proof (induction n rule: digits.induct)
  case (1 n)
  show ?case
  proof (cases "n < 10")
    case True
    then show ?thesis
      using digitChar_cases [of n] by (subst digits.simps) simp
  next
    case False
    have "n mod 10 < 10" by simp
    then have "digitChar (n mod 10) \<in> set ''0123456789''"
      using digitChar_cases by blast
    with False "1.IH" show ?thesis
      by (subst digits.simps) simp
  qed
qed

lemma digits_value: "foldl (\<lambda>a c. 10 * a + digitVal c) 0 (digits n) = n"
proof (induction n rule: digits.induct)
  case (1 n)
  show ?case
  proof (cases "n < 10")
    case True
    then show ?thesis
      using digitChar_cases [of n] by (subst digits.simps) simp
  next
    case False
    have "n mod 10 < 10" by simp
    then have "digitVal (digitChar (n mod 10)) = n mod 10"
      using digitChar_cases by blast
    with False "1.IH" show ?thesis
      by (subst digits.simps) simp
  qed
qed

lemma digits_inj: "digits n = digits m \<Longrightarrow> n = m"
  by (metis digits_value)

declare digits.simps [simp del]

lemma numberToString_inj:
  assumes "numberToString i = numberToString j"
  shows "i = j"
proof -
  have no_minus: "digits n \<noteq> CHR ''-'' # cs" for n cs
  proof
    assume "digits n = CHR ''-'' # cs"
    then have "CHR ''-'' \<in> set (digits n)" by simp
    with digits_chars [of n] show False by auto
  qed
  consider "i < 0" "j < 0" | "i < 0" "\<not> j < 0" | "\<not> i < 0" "j < 0" | "\<not> i < 0" "\<not> j < 0"
    by blast
  then show ?thesis
  proof cases
    case 1
    with assms have "digits (nat (- i)) = digits (nat (- j))"
      by (simp add: numberToString_def)
    then have "nat (- i) = nat (- j)" by (rule digits_inj)
    with 1 show ?thesis by simp
  next
    case 2
    with assms have "digits (nat j) = CHR ''-'' # digits (nat (- i))"
      by (simp add: numberToString_def)
    with no_minus show ?thesis by blast
  next
    case 3
    with assms have "digits (nat i) = CHR ''-'' # digits (nat (- j))"
      by (simp add: numberToString_def)
    with no_minus show ?thesis by blast
  next
    case 4
    with assms have "digits (nat i) = digits (nat j)"
      by (simp add: numberToString_def)
    then have "nat i = nat j" by (rule digits_inj)
    with 4 show ?thesis by simp
  qed
qed

lemma numberToString_no_underscore: "CHR ''_'' \<notin> set (numberToString i)"
proof -
  have "CHR ''_'' \<notin> set (digits n)" for n
    using digits_chars [of n] by auto
  then show ?thesis by (simp add: numberToString_def del: digits.simps)
qed

lemma takeWhile_upto_underscore:
  "CHR ''_'' \<notin> set a \<Longrightarrow> takeWhile (\<lambda>c. c \<noteq> CHR ''_'') (a @ CHR ''_'' # x) = a"
  by (induction a) auto

lemma split_at_underscore:
  assumes "a @ ''_'' @ x = b @ ''_'' @ y"
    and "CHR ''_'' \<notin> set a" and "CHR ''_'' \<notin> set b"
  shows "a = b \<and> x = y"
proof -
  have "takeWhile (\<lambda>c. c \<noteq> CHR ''_'') (a @ ''_'' @ x) = a"
    using assms(2) by (simp add: takeWhile_upto_underscore)
  moreover have "takeWhile (\<lambda>c. c \<noteq> CHR ''_'') (b @ ''_'' @ y) = b"
    using assms(3) by (simp add: takeWhile_upto_underscore)
  ultimately have "a = b" using assms(1) by simp
  with assms(1) show ?thesis by simp
qed

lemma identityKeyAsText_firstUrl: "identityKeyAsText s = (timestamp s, firstUrl s)"
  by (cases "urls s") (simp_all add: identityKeyAsText_def identityKey_def firstUrl_def)

lemma sessionId_eq_iff:
  "sessionId s = sessionId t \<longleftrightarrow> identityKeyAsText s = identityKeyAsText t"
proof
  assume "sessionId s = sessionId t"
  then have "numberToString (timestamp s) = numberToString (timestamp t) \<and> firstUrl s = firstUrl t"
    unfolding sessionId_def
    by (rule split_at_underscore) (rule numberToString_no_underscore)+
  then show "identityKeyAsText s = identityKeyAsText t"
    by (simp add: identityKeyAsText_firstUrl numberToString_inj)
next
  assume "identityKeyAsText s = identityKeyAsText t"
  then show "sessionId s = sessionId t"
    by (simp add: identityKeyAsText_firstUrl sessionId_def)
qed

lemma sessionId_mem_iff:
  "sessionId s \<in> set (map sessionId xs) \<longleftrightarrow>
   identityKeyAsText s \<in> identityKeyAsText ` set xs"
  by (auto simp: sessionId_eq_iff image_iff)

text \<open>
  The two keys tell the same sessions apart, except a session without URLs from one whose
  first URL is the text \<^verbatim>\<open>undefined\<close>.
\<close>

lemma identityKey_imp_asText:
  "identityKey a = identityKey b \<Longrightarrow> identityKeyAsText a = identityKeyAsText b"
proof -
  assume e: "identityKey a = identityKey b"
  then have "fst (identityKey a) = fst (identityKey b)" by simp
  then have "timestamp a = timestamp b" by (simp add: identityKey_def)
  with e show ?thesis by (simp add: identityKeyAsText_def)
qed

lemma identityKeyAsText_eq_iff:
  assumes "(urls a \<noteq> [] \<and> urls b \<noteq> [])
      \<or> (snd (identityKey a) \<noteq> Some ''undefined'' \<and> snd (identityKey b) \<noteq> Some ''undefined'')"
  shows "identityKeyAsText a = identityKeyAsText b \<longleftrightarrow> identityKey a = identityKey b"
  using assms by (auto simp: identityKeyAsText_def identityKey_def split: if_splits)

lemma identityKeyAsText_mem_iff:
  assumes "(\<forall>s \<in> insert a (set xs). urls s \<noteq> [])
      \<or> (\<forall>s \<in> insert a (set xs). snd (identityKey s) \<noteq> Some ''undefined'')"
  shows "identityKeyAsText a \<in> identityKeyAsText ` set xs \<longleftrightarrow>
         identityKey a \<in> identityKey ` set xs"
proof -
  have "identityKeyAsText a = identityKeyAsText x \<longleftrightarrow> identityKey a = identityKey x"
    if "x \<in> set xs" for x
    using assms that by (intro identityKeyAsText_eq_iff) auto
  then show ?thesis by (auto simp: image_iff)
qed

subsection \<open>Import merge\<close>

lemma mergeImport_merged:
  "merged (mergeImport incoming existing) =
     filter (\<lambda>s. identityKeyAsText s \<notin> identityKeyAsText ` set existing) incoming @ existing"
  by (simp add: mergeImport_def Let_def sessionId_mem_iff del: set_map)

lemma mergeImport_addedCount:
  "addedCount (mergeImport incoming existing) =
     int (length (filter (\<lambda>s. identityKeyAsText s \<notin> identityKeyAsText ` set existing) incoming))"
  by (simp add: mergeImport_def Let_def sessionId_mem_iff del: set_map)

lemma mergeImport_skippedCount:
  "skippedCount (mergeImport incoming existing) =
     int (length (filter (\<lambda>s. identityKeyAsText s \<in> identityKeyAsText ` set existing) incoming))"
proof -
  let ?P = "\<lambda>s. identityKeyAsText s \<in> identityKeyAsText ` set existing"
  have "length (filter ?P incoming) + length (filter (\<lambda>s. \<not> ?P s) incoming) = length incoming"
    by (rule sum_length_filter_compl)
  then show ?thesis
    by (simp add: mergeImport_def Let_def sessionId_mem_iff del: set_map)
qed

lemma filter_identityKey:
  assumes "(\<forall>s \<in> set incoming \<union> set existing. urls s \<noteq> [])
      \<or> (\<forall>s \<in> set incoming \<union> set existing. snd (identityKey s) \<noteq> Some ''undefined'')"
  shows "filter (\<lambda>s. identityKeyAsText s \<notin> identityKeyAsText ` set existing) incoming =
         filter (\<lambda>s. identityKey s \<notin> identityKey ` set existing) incoming"
    and "filter (\<lambda>s. identityKeyAsText s \<in> identityKeyAsText ` set existing) incoming =
         filter (\<lambda>s. identityKey s \<in> identityKey ` set existing) incoming"
proof -
  have "identityKeyAsText a \<in> identityKeyAsText ` set existing \<longleftrightarrow>
        identityKey a \<in> identityKey ` set existing" if "a \<in> set incoming" for a
    using assms that by (intro identityKeyAsText_mem_iff) auto
  then show "filter (\<lambda>s. identityKeyAsText s \<notin> identityKeyAsText ` set existing) incoming =
         filter (\<lambda>s. identityKey s \<notin> identityKey ` set existing) incoming"
    and "filter (\<lambda>s. identityKeyAsText s \<in> identityKeyAsText ` set existing) incoming =
         filter (\<lambda>s. identityKey s \<in> identityKey ` set existing) incoming"
    by (auto intro!: filter_cong)
qed

text \<open>
  C4 as stated fails. A stored session without URLs has the identifier 5_undefined, and
  so has an incoming session whose first URL is the text \<^verbatim>\<open>undefined\<close>: the incoming
  session is skipped, although its identity key (5, first URL undefined) is not the key
  (5, no first URL) of the stored session.
\<close>

theorem mergeImport_skips_absent_key:
  "identityKey \<lparr>timestamp = 5, tabCount = 1, urls = [''undefined''], customName = None\<rparr>
     \<notin> set (map identityKey [\<lparr>timestamp = 5, tabCount = 0, urls = [], customName = None\<rparr>])
   \<and> mergeImport
        [\<lparr>timestamp = 5, tabCount = 1, urls = [''undefined''], customName = None\<rparr>]
        [\<lparr>timestamp = 5, tabCount = 0, urls = [], customName = None\<rparr>] =
       \<lparr>merged = [\<lparr>timestamp = 5, tabCount = 0, urls = [], customName = None\<rparr>],
        addedCount = 0, skippedCount = 1\<rparr>"
  by (simp add: identityKey_def mergeImport_def Let_def sessionId_def numberToString_def
      digits.simps digitChar_def firstUrl_def)

text \<open>
  C4 (as amended). For every existing and incoming collection, the merge drops exactly
  the incoming sessions whose identity key (timestamp, first URL), a missing first URL
  counting as the text \<^verbatim>\<open>undefined\<close>, occurs among the existing sessions, puts the
  surviving incoming sessions, in their original order, in front of the unchanged
  existing collection, and reports counts that add up to the number of incoming sessions.
  When every session has a URL, or no session has the text \<^verbatim>\<open>undefined\<close> as its first
  URL, these are the sessions whose identity key (timestamp, first URL) as such occurs
  among the existing sessions. With one existing session (timestamp 100, first URL u1)
  and that session plus one with timestamp 200 and first URL u2 incoming, the merged
  collection has two sessions, one added and one skipped.
\<close>

theorem mergeImport_skips_known_keys:
  "merged (mergeImport incoming existing) =
     filter (\<lambda>s. identityKeyAsText s \<notin> identityKeyAsText ` set existing) incoming @ existing
   \<and> addedCount (mergeImport incoming existing) =
     int (length (filter (\<lambda>s. identityKeyAsText s \<notin> identityKeyAsText ` set existing) incoming))
   \<and> skippedCount (mergeImport incoming existing) =
     int (length (filter (\<lambda>s. identityKeyAsText s \<in> identityKeyAsText ` set existing) incoming))
   \<and> addedCount (mergeImport incoming existing) + skippedCount (mergeImport incoming existing) =
     int (length incoming)
   \<and> ((\<forall>s \<in> set incoming \<union> set existing. urls s \<noteq> [])
        \<or> (\<forall>s \<in> set incoming \<union> set existing. snd (identityKey s) \<noteq> Some ''undefined'') \<longrightarrow>
      merged (mergeImport incoming existing) =
        filter (\<lambda>s. identityKey s \<notin> identityKey ` set existing) incoming @ existing
      \<and> addedCount (mergeImport incoming existing) =
        int (length (filter (\<lambda>s. identityKey s \<notin> identityKey ` set existing) incoming))
      \<and> skippedCount (mergeImport incoming existing) =
        int (length (filter (\<lambda>s. identityKey s \<in> identityKey ` set existing) incoming)))
   \<and> mergeImport
        [\<lparr>timestamp = 100, tabCount = 1, urls = [''u1''], customName = None\<rparr>,
         \<lparr>timestamp = 200, tabCount = 1, urls = [''u2''], customName = None\<rparr>]
        [\<lparr>timestamp = 100, tabCount = 1, urls = [''u1''], customName = None\<rparr>] =
       \<lparr>merged =
          [\<lparr>timestamp = 200, tabCount = 1, urls = [''u2''], customName = None\<rparr>,
           \<lparr>timestamp = 100, tabCount = 1, urls = [''u1''], customName = None\<rparr>],
        addedCount = 1, skippedCount = 1\<rparr>"
proof (intro conjI impI)
  show "merged (mergeImport incoming existing) =
     filter (\<lambda>s. identityKeyAsText s \<notin> identityKeyAsText ` set existing) incoming @ existing"
    by (rule mergeImport_merged)
  show "addedCount (mergeImport incoming existing) =
     int (length (filter (\<lambda>s. identityKeyAsText s \<notin> identityKeyAsText ` set existing) incoming))"
    by (rule mergeImport_addedCount)
  show "skippedCount (mergeImport incoming existing) =
     int (length (filter (\<lambda>s. identityKeyAsText s \<in> identityKeyAsText ` set existing) incoming))"
    by (rule mergeImport_skippedCount)
  show "addedCount (mergeImport incoming existing) + skippedCount (mergeImport incoming existing) =
     int (length incoming)"
    by (simp add: mergeImport_def Let_def)
  show "mergeImport
        [\<lparr>timestamp = 100, tabCount = 1, urls = [''u1''], customName = None\<rparr>,
         \<lparr>timestamp = 200, tabCount = 1, urls = [''u2''], customName = None\<rparr>]
        [\<lparr>timestamp = 100, tabCount = 1, urls = [''u1''], customName = None\<rparr>] =
       \<lparr>merged =
          [\<lparr>timestamp = 200, tabCount = 1, urls = [''u2''], customName = None\<rparr>,
           \<lparr>timestamp = 100, tabCount = 1, urls = [''u1''], customName = None\<rparr>],
        addedCount = 1, skippedCount = 1\<rparr>"
    by (simp add: mergeImport_def Let_def sessionId_def numberToString_def digits.simps
        digitChar_def firstUrl_def)
next
  assume h: "(\<forall>s \<in> set incoming \<union> set existing. urls s \<noteq> [])
        \<or> (\<forall>s \<in> set incoming \<union> set existing. snd (identityKey s) \<noteq> Some ''undefined'')"
  show "merged (mergeImport incoming existing) =
        filter (\<lambda>s. identityKey s \<notin> identityKey ` set existing) incoming @ existing"
    by (simp only: mergeImport_merged filter_identityKey(1) [OF h])
  show "addedCount (mergeImport incoming existing) =
        int (length (filter (\<lambda>s. identityKey s \<notin> identityKey ` set existing) incoming))"
    by (simp only: mergeImport_addedCount filter_identityKey(1) [OF h])
  show "skippedCount (mergeImport incoming existing) =
        int (length (filter (\<lambda>s. identityKey s \<in> identityKey ` set existing) incoming))"
    by (simp only: mergeImport_skippedCount filter_identityKey(2) [OF h])
qed

theorem mergeImport_skips_known_keys_witness:
  "map identityKey
     [\<lparr>timestamp = 100, tabCount = 1, urls = [''u1''], customName = None\<rparr>,
      \<lparr>timestamp = 100, tabCount = 1, urls = [''u2''], customName = None\<rparr>,
      \<lparr>timestamp = 200, tabCount = 1, urls = [''u1''], customName = None\<rparr>,
      \<lparr>timestamp = 100, tabCount = 0, urls = [], customName = None\<rparr>] =
     [(100, Some ''u1''), (100, Some ''u2''), (200, Some ''u1''), (100, None)]
   \<and> merged (mergeImport
       [\<lparr>timestamp = 100, tabCount = 1, urls = [''u1''], customName = None\<rparr>,
        \<lparr>timestamp = 100, tabCount = 1, urls = [''u2''], customName = None\<rparr>,
        \<lparr>timestamp = 200, tabCount = 1, urls = [''u1''], customName = None\<rparr>,
        \<lparr>timestamp = 100, tabCount = 0, urls = [], customName = None\<rparr>]
       [\<lparr>timestamp = 100, tabCount = 1, urls = [''u1''], customName = None\<rparr>]) =
     [\<lparr>timestamp = 100, tabCount = 1, urls = [''u2''], customName = None\<rparr>,
      \<lparr>timestamp = 200, tabCount = 1, urls = [''u1''], customName = None\<rparr>,
      \<lparr>timestamp = 100, tabCount = 0, urls = [], customName = None\<rparr>,
      \<lparr>timestamp = 100, tabCount = 1, urls = [''u1''], customName = None\<rparr>]
   \<and> skippedCount (mergeImport
       [\<lparr>timestamp = 100, tabCount = 1, urls = [''u1''], customName = None\<rparr>,
        \<lparr>timestamp = 100, tabCount = 1, urls = [''u2''], customName = None\<rparr>,
        \<lparr>timestamp = 200, tabCount = 1, urls = [''u1''], customName = None\<rparr>,
        \<lparr>timestamp = 100, tabCount = 0, urls = [], customName = None\<rparr>]
       [\<lparr>timestamp = 100, tabCount = 1, urls = [''u1''], customName = None\<rparr>]) = 1"
proof -
  let ?a = "\<lparr>timestamp = 100, tabCount = 1, urls = [''u1''], customName = None\<rparr>"
  let ?b = "\<lparr>timestamp = 100, tabCount = 1, urls = [''u2''], customName = None\<rparr>"
  let ?c = "\<lparr>timestamp = 200, tabCount = 1, urls = [''u1''], customName = None\<rparr>"
  let ?d = "\<lparr>timestamp = 100, tabCount = 0, urls = [], customName = None\<rparr>"
  have keys: "map identityKey [?a, ?b, ?c, ?d] =
      [(100, Some ''u1''), (100, Some ''u2''), (200, Some ''u1''), (100, None)]"
    by (simp add: identityKey_def)
  have h: "\<forall>s \<in> set [?a, ?b, ?c, ?d] \<union> set [?a]. snd (identityKey s) \<noteq> Some ''undefined''"
    by (simp add: identityKey_def)
  from mergeImport_skips_known_keys [of "[?a, ?b, ?c, ?d]" "[?a]"] h
  have m: "merged (mergeImport [?a, ?b, ?c, ?d] [?a]) =
        filter (\<lambda>s. identityKey s \<notin> identityKey ` set [?a]) [?a, ?b, ?c, ?d] @ [?a]"
    and k: "skippedCount (mergeImport [?a, ?b, ?c, ?d] [?a]) =
        int (length (filter (\<lambda>s. identityKey s \<in> identityKey ` set [?a]) [?a, ?b, ?c, ?d]))"
    by blast+
  have "merged (mergeImport [?a, ?b, ?c, ?d] [?a]) = [?b, ?c, ?d, ?a]"
    unfolding m by (simp add: identityKey_def)
  moreover have "skippedCount (mergeImport [?a, ?b, ?c, ?d] [?a]) = 1"
    unfolding k by (simp add: identityKey_def)
  ultimately show ?thesis using keys by blast
qed

text \<open>
  C9 as stated fails. Two incoming sessions whose first URL is the text \<^verbatim>\<open>undefined\<close>
  share an identity key that no stored session has, yet a stored session without URLs and
  with their timestamp has their identifier 5_undefined, and both copies are skipped.
\<close>

theorem mergeImport_drops_incoming_copies:
  "identityKey \<lparr>timestamp = 5, tabCount = 1, urls = [''undefined''], customName = None\<rparr> =
   identityKey \<lparr>timestamp = 5, tabCount = 2, urls = [''undefined'', ''v''], customName = None\<rparr>
   \<and> identityKey \<lparr>timestamp = 5, tabCount = 1, urls = [''undefined''], customName = None\<rparr>
     \<notin> set (map identityKey [\<lparr>timestamp = 5, tabCount = 0, urls = [], customName = None\<rparr>])
   \<and> merged (mergeImport
        [\<lparr>timestamp = 5, tabCount = 1, urls = [''undefined''], customName = None\<rparr>,
         \<lparr>timestamp = 5, tabCount = 2, urls = [''undefined'', ''v''], customName = None\<rparr>]
        [\<lparr>timestamp = 5, tabCount = 0, urls = [], customName = None\<rparr>]) =
       [\<lparr>timestamp = 5, tabCount = 0, urls = [], customName = None\<rparr>]"
  by (simp add: identityKey_def mergeImport_def Let_def sessionId_def numberToString_def
      digits.simps digitChar_def firstUrl_def)

text \<open>
  C9 (as amended). The merge compares incoming sessions with the existing collection
  only, never with each other: when the identity key of a session, a missing first URL
  counting as the text \<^verbatim>\<open>undefined\<close>, does not occur among the existing sessions, every
  incoming session with the identity key (timestamp, first URL) of that session is in the
  merged collection, so two incoming copies of one key are both added.
\<close>

theorem mergeImport_keeps_incoming_copies:
  assumes "identityKeyAsText s \<notin> identityKeyAsText ` set existing"
  shows "filter (\<lambda>x. identityKey x = identityKey s) (merged (mergeImport incoming existing)) =
         filter (\<lambda>x. identityKey x = identityKey s) incoming"
proof -
  have "identityKey x \<noteq> identityKey s" if "x \<in> set existing" for x
    using assms that identityKey_imp_asText [of x s] by (metis imageI)
  then have "filter (\<lambda>x. identityKey x = identityKey s) existing = []"
    by (simp add: filter_empty_conv)
  moreover have "filter (\<lambda>x. identityKey x = identityKey s)
        (filter (\<lambda>x. identityKeyAsText x \<notin> identityKeyAsText ` set existing) incoming) =
      filter (\<lambda>x. identityKey x = identityKey s) incoming"
  proof -
    have "(identityKeyAsText x \<notin> identityKeyAsText ` set existing \<and> identityKey x = identityKey s) =
          (identityKey x = identityKey s)" for x
      using assms identityKey_imp_asText [of x s] by metis
    then show ?thesis by simp
  qed
  ultimately show ?thesis
    by (simp only: mergeImport_merged filter_append append_Nil2)
qed

theorem mergeImport_keeps_incoming_copies_witness:
  "identityKeyAsText \<lparr>timestamp = 7, tabCount = 1, urls = [''u''], customName = None\<rparr>
     \<notin> identityKeyAsText ` set
         [\<lparr>timestamp = 7, tabCount = 1, urls = [''v''], customName = None\<rparr>,
          \<lparr>timestamp = 7, tabCount = 0, urls = [], customName = None\<rparr>,
          \<lparr>timestamp = 3, tabCount = 1, urls = [''u''], customName = None\<rparr>]
   \<and> filter
       (\<lambda>x. identityKey x =
          identityKey \<lparr>timestamp = 7, tabCount = 1, urls = [''u''], customName = None\<rparr>)
       (merged (mergeImport
          [\<lparr>timestamp = 7, tabCount = 1, urls = [''u''], customName = None\<rparr>,
           \<lparr>timestamp = 7, tabCount = 2, urls = [''u'', ''v''], customName = None\<rparr>]
          [\<lparr>timestamp = 7, tabCount = 1, urls = [''v''], customName = None\<rparr>,
           \<lparr>timestamp = 7, tabCount = 0, urls = [], customName = None\<rparr>,
           \<lparr>timestamp = 3, tabCount = 1, urls = [''u''], customName = None\<rparr>])) =
       [\<lparr>timestamp = 7, tabCount = 1, urls = [''u''], customName = None\<rparr>,
        \<lparr>timestamp = 7, tabCount = 2, urls = [''u'', ''v''], customName = None\<rparr>]"
proof -
  let ?a = "\<lparr>timestamp = 7, tabCount = 1, urls = [''u''], customName = None\<rparr>"
  let ?b = "\<lparr>timestamp = 7, tabCount = 2, urls = [''u'', ''v''], customName = None\<rparr>"
  let ?E = "[\<lparr>timestamp = 7, tabCount = 1, urls = [''v''], customName = None\<rparr>,
             \<lparr>timestamp = 7, tabCount = 0, urls = [], customName = None\<rparr>,
             \<lparr>timestamp = 3, tabCount = 1, urls = [''u''], customName = None\<rparr>]"
  have absent: "identityKeyAsText ?a \<notin> identityKeyAsText ` set ?E"
    by (simp add: identityKeyAsText_def identityKey_def)
  have "filter (\<lambda>x. identityKey x = identityKey ?a) (merged (mergeImport [?a, ?b] ?E)) =
      filter (\<lambda>x. identityKey x = identityKey ?a) [?a, ?b]"
    using absent by (rule mergeImport_keeps_incoming_copies)
  also have "\<dots> = [?a, ?b]"
    by (simp add: identityKey_def)
  finally show ?thesis using absent by blast
qed

subsection \<open>Duplicate detection\<close>

lemma tabId_inj:
  "distinct (map tabId P) \<Longrightarrow> s \<in> set P \<Longrightarrow> t \<in> set P \<Longrightarrow> tabId s = tabId t \<Longrightarrow> s = t"
  by (meson distinct_map inj_onD)

lemma dupInv_step:
  assumes inv: "dupInv a P st" and dist: "distinct (map tabId (P @ [t]))"
  shows "dupInv a (P @ [t]) (dupStep a st t)"
proof -
  obtain m c where st: "st = (m, c)" by (cases st)
  let ?u = "toLowerCase (url t)"
  from inv st have
    keys: "dom m = (\<lambda>t. toLowerCase (url t)) ` set P" and
    reps: "\<And>u r. m u = Some r \<Longrightarrow> r \<in> set P \<and> toLowerCase (url r) = u \<and> tabId r \<notin> set c" and
    dc: "distinct c" and
    sub: "set c \<subseteq> tabId ` set P" and
    cover: "\<And>r. r \<in> set P \<Longrightarrow> tabId r \<in> set c \<or> m (toLowerCase (url r)) = Some r" and
    act: "\<And>r. r \<in> set P \<Longrightarrow> tabId r = a \<Longrightarrow> m (toLowerCase (url r)) = Some r" and
    size: "length c + card (dom m) = length P"
    by (auto simp: dupInv_def)
  from dist have fresh: "tabId t \<notin> tabId ` set P" and distP: "distinct (map tabId P)"
    by auto
  from fresh have fresh': "\<And>r. r \<in> set P \<Longrightarrow> tabId r \<noteq> tabId t" by (metis imageI)
  have fin: "finite (dom m)" by (simp add: keys)
  from fresh sub have tc: "tabId t \<notin> set c" by blast
  show ?thesis
  proof (cases "m ?u")
    case None
    then have step: "dupStep a st t = (m(?u \<mapsto> t), c)"
      by (simp add: dupStep_def st)
    have "?u \<notin> dom m" using None by blast
    then have card: "card (dom (m(?u \<mapsto> t))) = Suc (card (dom m))"
      using fin by simp
    show ?thesis
      unfolding step dupInv_def prod.case
    proof (intro conjI allI impI ballI)
      show "dom (m(?u \<mapsto> t)) = (\<lambda>t. toLowerCase (url t)) ` set (P @ [t])"
        using keys by auto
      show "distinct c" by (rule dc)
      show "set c \<subseteq> tabId ` set (P @ [t])" using sub by auto
      show "length c + card (dom (m(?u \<mapsto> t))) = length (P @ [t])"
        using size card by simp
    next
      fix u r assume "(m(?u \<mapsto> t)) u = Some r"
      then show "r \<in> set (P @ [t])" "toLowerCase (url r) = u" "tabId r \<notin> set c"
        using reps tc by (auto split: if_splits)
    next
      fix r assume "r \<in> set (P @ [t])"
      then consider "r = t" | "r \<in> set P" "tabId r \<in> set c"
        | "r \<in> set P" "m (toLowerCase (url r)) = Some r"
        using cover by auto
      then show "tabId r \<in> set c \<or> (m(?u \<mapsto> t)) (toLowerCase (url r)) = Some r"
      proof cases
        case 3
        with None have "toLowerCase (url r) \<noteq> ?u" by auto
        with 3 show ?thesis by simp
      qed simp_all
    next
      fix r assume "r \<in> set (P @ [t])" "tabId r = a"
      then consider "r = t" | "r \<in> set P" "m (toLowerCase (url r)) = Some r"
        using act by auto
      then show "(m(?u \<mapsto> t)) (toLowerCase (url r)) = Some r"
      proof cases
        case 2
        with None have "toLowerCase (url r) \<noteq> ?u" by auto
        with 2 show ?thesis by simp
      qed simp
    qed
  next
    case (Some prev)
    from reps [OF Some] have prevP: "prev \<in> set P" and prevu: "toLowerCase (url prev) = ?u"
      and prevc: "tabId prev \<notin> set c" by auto
    show ?thesis
    proof (cases "tabId t = a")
      case True
      then have step: "dupStep a st t = (m(?u \<mapsto> t), c @ [tabId prev])"
        using Some prevc by (simp add: dupStep_def st setAdd_def)
      have domeq: "dom (m(?u \<mapsto> t)) = dom m" using Some by auto
      show ?thesis
        unfolding step dupInv_def prod.case
      proof (intro conjI allI impI ballI)
        show "dom (m(?u \<mapsto> t)) = (\<lambda>t. toLowerCase (url t)) ` set (P @ [t])"
          using keys Some by auto
        show "distinct (c @ [tabId prev])" using dc prevc by simp
        show "set (c @ [tabId prev]) \<subseteq> tabId ` set (P @ [t])" using sub prevP by auto
        show "length (c @ [tabId prev]) + card (dom (m(?u \<mapsto> t))) = length (P @ [t])"
          using size domeq by simp
      next
        fix u r assume h: "(m(?u \<mapsto> t)) u = Some r"
        show "r \<in> set (P @ [t])" "toLowerCase (url r) = u"
          using h reps by (auto split: if_splits)
        show "tabId r \<notin> set (c @ [tabId prev])"
        proof (cases "u = ?u")
          case True
          with h have "r = t" by simp
          then show ?thesis using tc fresh' [OF prevP] by auto
        next
          case False
          with h have mr: "m u = Some r" by simp
          then have "r \<in> set P" "toLowerCase (url r) = u" "tabId r \<notin> set c"
            using reps by auto
          moreover have "tabId r \<noteq> tabId prev"
            using tabId_inj [OF distP \<open>r \<in> set P\<close> prevP] \<open>toLowerCase (url r) = u\<close> prevu False
            by auto
          ultimately show ?thesis by simp
        qed
      next
        fix r assume rP: "r \<in> set (P @ [t])"
        show "tabId r \<in> set (c @ [tabId prev]) \<or> (m(?u \<mapsto> t)) (toLowerCase (url r)) = Some r"
        proof (cases "r = t")
          case True then show ?thesis by simp
        next
          case False
          with rP have "r \<in> set P" by simp
          from cover [OF this] show ?thesis
            using Some by (cases "toLowerCase (url r) = ?u") auto
        qed
      next
        fix r assume rP: "r \<in> set (P @ [t])" and ra: "tabId r = a"
        have "r = t"
        proof (rule ccontr)
          assume "r \<noteq> t"
          with rP have "r \<in> set P" by simp
          with ra True fresh' show False by force
        qed
        then show "(m(?u \<mapsto> t)) (toLowerCase (url r)) = Some r" by simp
      qed
    next
      case False
      then have step: "dupStep a st t = (m, c @ [tabId t])"
        using Some tc by (simp add: dupStep_def st setAdd_def)
      show ?thesis
        unfolding step dupInv_def prod.case
      proof (intro conjI allI impI ballI)
        show "dom m = (\<lambda>t. toLowerCase (url t)) ` set (P @ [t])"
          using keys Some by auto
        show "distinct (c @ [tabId t])" using dc tc by simp
        show "set (c @ [tabId t]) \<subseteq> tabId ` set (P @ [t])" using sub by auto
        show "length (c @ [tabId t]) + card (dom m) = length (P @ [t])"
          using size by simp
      next
        fix u r assume h: "m u = Some r"
        then show "r \<in> set (P @ [t])" "toLowerCase (url r) = u"
          using reps by auto
        from h reps have "r \<in> set P" "tabId r \<notin> set c" by auto
        then show "tabId r \<notin> set (c @ [tabId t])" using fresh' by auto
      next
        fix r assume rP: "r \<in> set (P @ [t])"
        then show "tabId r \<in> set (c @ [tabId t]) \<or> m (toLowerCase (url r)) = Some r"
          using cover by (cases "r = t") auto
      next
        fix r assume rP: "r \<in> set (P @ [t])" and ra: "tabId r = a"
        with False have "r \<in> set P" by auto
        then show "m (toLowerCase (url r)) = Some r" using act ra by simp
      qed
    qed
  qed
qed

lemma dupInv_foldl:
  "dupInv a P st \<Longrightarrow> distinct (map tabId (P @ ts)) \<Longrightarrow>
   dupInv a (P @ ts) (foldl (dupStep a) st ts)"
proof (induction ts arbitrary: P st)
  case Nil
  then show ?case by simp
next
  case (Cons t ts)
  from Cons.prems(2) have d1: "distinct (map tabId (P @ [t]))" by simp
  have "dupInv a (P @ [t]) (dupStep a st t)"
    using Cons.prems(1) d1 by (rule dupInv_step)
  moreover have "distinct (map tabId ((P @ [t]) @ ts))" using Cons.prems(2) by simp
  ultimately have "dupInv a ((P @ [t]) @ ts) (foldl (dupStep a) (dupStep a st t) ts)"
    by (rule Cons.IH)
  then show ?case by simp
qed

lemma dupInv_init: "dupInv a [] (Map.empty, [])"
  by (simp add: dupInv_def)

lemma dupInv_final:
  "distinct (map tabId T) \<Longrightarrow> dupInv a T (foldl (dupStep a) (Map.empty, []) T)"
  using dupInv_foldl [OF dupInv_init, of T a] by simp


lemma closeDuplicates_inv:
  "distinct (map tabId allTabs) \<Longrightarrow>
   \<exists>m. dupInv (tabId activeTab) allTabs (m, closeDuplicates activeTab allTabs)"
  using dupInv_final [of allTabs "tabId activeTab"]
  by (cases "foldl (dupStep (tabId activeTab)) (Map.empty, []) allTabs")
     (auto simp: closeDuplicates_def)

text \<open>
  C3. Tab identifiers are assigned by the host and are pairwise distinct. For such a tab
  list and an active tab in it, the removal set never holds the active tab, and every
  other tab whose URL equals the active tab's URL up to letter case is in the removal
  set: whether it comes before the active tab or after it, the active tab is the one
  kept. For the two tabs 1 and 2 at http://x.com/a with tab 2 active, the removal set is
  exactly {1}.
\<close>

theorem closeDuplicates_keeps_active:
  assumes "distinct (map tabId allTabs)" and "activeTab \<in> set allTabs"
  shows "tabId activeTab \<notin> set (closeDuplicates activeTab allTabs)
    \<and> (\<forall>t \<in> set allTabs.
          t \<noteq> activeTab \<and> toLowerCase (url t) = toLowerCase (url activeTab)
          \<longrightarrow> tabId t \<in> set (closeDuplicates activeTab allTabs))
    \<and> closeDuplicates
          \<lparr>url = ''http://x.com/a'', active = True, pinned = False, title = [], tabId = 2\<rparr>
          [\<lparr>url = ''http://x.com/a'', active = False, pinned = False, title = [], tabId = 1\<rparr>,
           \<lparr>url = ''http://x.com/a'', active = True, pinned = False, title = [], tabId = 2\<rparr>]
        = [1]"
proof -
  let ?c = "closeDuplicates activeTab allTabs"
  from closeDuplicates_inv [OF assms(1)] obtain m
    where inv: "dupInv (tabId activeTab) allTabs (m, ?c)" by blast
  then have
    reps: "\<And>u r. m u = Some r \<Longrightarrow> tabId r \<notin> set ?c" and
    cover: "\<And>r. r \<in> set allTabs \<Longrightarrow> tabId r \<in> set ?c \<or> m (toLowerCase (url r)) = Some r" and
    act: "\<And>r. r \<in> set allTabs \<Longrightarrow> tabId r = tabId activeTab \<Longrightarrow>
            m (toLowerCase (url r)) = Some r"
    by (auto simp: dupInv_def)
  have rep: "m (toLowerCase (url activeTab)) = Some activeTab"
    using act [OF assms(2)] by simp
  have kept: "tabId activeTab \<notin> set ?c"
    using reps [OF rep] .
  have others: "tabId t \<in> set ?c"
    if "t \<in> set allTabs" "t \<noteq> activeTab" "toLowerCase (url t) = toLowerCase (url activeTab)" for t
    using cover [OF that(1)] rep that(2,3) by auto
  have example: "closeDuplicates
          \<lparr>url = ''http://x.com/a'', active = True, pinned = False, title = [], tabId = 2\<rparr>
          [\<lparr>url = ''http://x.com/a'', active = False, pinned = False, title = [], tabId = 1\<rparr>,
           \<lparr>url = ''http://x.com/a'', active = True, pinned = False, title = [], tabId = 2\<rparr>]
        = [1]"
    by code_simp
  from kept others example show ?thesis by blast
qed

theorem closeDuplicates_keeps_active_witness:
  "distinct (map tabId
      [\<lparr>url = ''http://x.com/a'', active = False, pinned = False, title = [], tabId = 1\<rparr>,
       \<lparr>url = ''HTTP://X.COM/A'', active = True, pinned = False, title = [], tabId = 2\<rparr>,
       \<lparr>url = ''http://x.com/a'', active = False, pinned = False, title = [], tabId = 3\<rparr>])
   \<and> tabId \<lparr>url = ''HTTP://X.COM/A'', active = True, pinned = False, title = [], tabId = 2\<rparr>
       \<notin> set (closeDuplicates
        \<lparr>url = ''HTTP://X.COM/A'', active = True, pinned = False, title = [], tabId = 2\<rparr>
        [\<lparr>url = ''http://x.com/a'', active = False, pinned = False, title = [], tabId = 1\<rparr>,
         \<lparr>url = ''HTTP://X.COM/A'', active = True, pinned = False, title = [], tabId = 2\<rparr>,
         \<lparr>url = ''http://x.com/a'', active = False, pinned = False, title = [], tabId = 3\<rparr>])
   \<and> tabId \<lparr>url = ''http://x.com/a'', active = False, pinned = False, title = [], tabId = 1\<rparr>
       \<in> set (closeDuplicates
        \<lparr>url = ''HTTP://X.COM/A'', active = True, pinned = False, title = [], tabId = 2\<rparr>
        [\<lparr>url = ''http://x.com/a'', active = False, pinned = False, title = [], tabId = 1\<rparr>,
         \<lparr>url = ''HTTP://X.COM/A'', active = True, pinned = False, title = [], tabId = 2\<rparr>,
         \<lparr>url = ''http://x.com/a'', active = False, pinned = False, title = [], tabId = 3\<rparr>])
   \<and> tabId \<lparr>url = ''http://x.com/a'', active = False, pinned = False, title = [], tabId = 3\<rparr>
       \<in> set (closeDuplicates
        \<lparr>url = ''HTTP://X.COM/A'', active = True, pinned = False, title = [], tabId = 2\<rparr>
        [\<lparr>url = ''http://x.com/a'', active = False, pinned = False, title = [], tabId = 1\<rparr>,
         \<lparr>url = ''HTTP://X.COM/A'', active = True, pinned = False, title = [], tabId = 2\<rparr>,
         \<lparr>url = ''http://x.com/a'', active = False, pinned = False, title = [], tabId = 3\<rparr>])"
proof -
  let ?t1 = "\<lparr>url = ''http://x.com/a'', active = False, pinned = False, title = [], tabId = 1::nat\<rparr>"
  let ?t2 = "\<lparr>url = ''HTTP://X.COM/A'', active = True, pinned = False, title = [], tabId = 2::nat\<rparr>"
  let ?t3 = "\<lparr>url = ''http://x.com/a'', active = False, pinned = False, title = [], tabId = 3::nat\<rparr>"
  have d: "distinct (map tabId [?t1, ?t2, ?t3])" by simp
  have m: "?t2 \<in> set [?t1, ?t2, ?t3]" by simp
  have u: "toLowerCase ''http://x.com/a'' = toLowerCase ''HTTP://X.COM/A''" by code_simp
  from closeDuplicates_keeps_active [OF d m] have
    kept: "tabId ?t2 \<notin> set (closeDuplicates ?t2 [?t1, ?t2, ?t3])" and
    others: "\<forall>t \<in> set [?t1, ?t2, ?t3].
        t \<noteq> ?t2 \<and> toLowerCase (url t) = toLowerCase (url ?t2)
        \<longrightarrow> tabId t \<in> set (closeDuplicates ?t2 [?t1, ?t2, ?t3])"
    by blast+
  from others u have "tabId ?t1 \<in> set (closeDuplicates ?t2 [?t1, ?t2, ?t3])"
    and "tabId ?t3 \<in> set (closeDuplicates ?t2 [?t1, ?t2, ?t3])"
    by simp_all
  with d kept show ?thesis by blast
qed

text \<open>
  C10. For a tab list with pairwise distinct identifiers, the size of the removal set is
  the number of tabs minus the number of distinct lower-cased URLs, whichever tab is the
  active one; so the size is the same for any two choices of the active tab.
\<close>

theorem closeDuplicates_count:
  assumes "distinct (map tabId allTabs)"
  shows "int (length (closeDuplicates activeTab allTabs)) =
           int (length allTabs) - int (card ((\<lambda>t. toLowerCase (url t)) ` set allTabs))
    \<and> length (closeDuplicates activeTab allTabs) = length (closeDuplicates otherTab allTabs)"
proof -
  have count: "length (closeDuplicates a allTabs) +
      card ((\<lambda>t. toLowerCase (url t)) ` set allTabs) = length allTabs" for a
  proof -
    from closeDuplicates_inv [OF assms] obtain m
      where "dupInv (tabId a) allTabs (m, closeDuplicates a allTabs)" by blast
    then show ?thesis by (auto simp: dupInv_def)
  qed
  from count [of activeTab] count [of otherTab] show ?thesis by linarith
qed

theorem closeDuplicates_count_witness:
  "distinct (map tabId
      [\<lparr>url = ''http://x.com/a'', active = False, pinned = False, title = [], tabId = 1\<rparr>,
       \<lparr>url = ''HTTP://X.COM/A'', active = True, pinned = False, title = [], tabId = 2\<rparr>,
       \<lparr>url = ''http://y.org/'', active = False, pinned = False, title = [], tabId = 3\<rparr>])
   \<and> int (length (closeDuplicates
        \<lparr>url = ''HTTP://X.COM/A'', active = True, pinned = False, title = [], tabId = 2\<rparr>
        [\<lparr>url = ''http://x.com/a'', active = False, pinned = False, title = [], tabId = 1\<rparr>,
         \<lparr>url = ''HTTP://X.COM/A'', active = True, pinned = False, title = [], tabId = 2\<rparr>,
         \<lparr>url = ''http://y.org/'', active = False, pinned = False, title = [], tabId = 3\<rparr>])) =
       3 - 2
   \<and> length (closeDuplicates
        \<lparr>url = ''HTTP://X.COM/A'', active = True, pinned = False, title = [], tabId = 2\<rparr>
        [\<lparr>url = ''http://x.com/a'', active = False, pinned = False, title = [], tabId = 1\<rparr>,
         \<lparr>url = ''HTTP://X.COM/A'', active = True, pinned = False, title = [], tabId = 2\<rparr>,
         \<lparr>url = ''http://y.org/'', active = False, pinned = False, title = [], tabId = 3\<rparr>]) =
       length (closeDuplicates
        \<lparr>url = ''http://y.org/'', active = False, pinned = False, title = [], tabId = 3\<rparr>
        [\<lparr>url = ''http://x.com/a'', active = False, pinned = False, title = [], tabId = 1\<rparr>,
         \<lparr>url = ''HTTP://X.COM/A'', active = True, pinned = False, title = [], tabId = 2\<rparr>,
         \<lparr>url = ''http://y.org/'', active = False, pinned = False, title = [], tabId = 3\<rparr>])"
proof -
  let ?t1 = "\<lparr>url = ''http://x.com/a'', active = False, pinned = False, title = [], tabId = 1::nat\<rparr>"
  let ?t2 = "\<lparr>url = ''HTTP://X.COM/A'', active = True, pinned = False, title = [], tabId = 2::nat\<rparr>"
  let ?t3 = "\<lparr>url = ''http://y.org/'', active = False, pinned = False, title = [], tabId = 3::nat\<rparr>"
  have d: "distinct (map tabId [?t1, ?t2, ?t3])" by simp
  have c: "card ((\<lambda>t. toLowerCase (url t)) ` set [?t1, ?t2, ?t3]) = 2" by code_simp
  from closeDuplicates_count [OF d, of ?t2 ?t3] c d show ?thesis by simp
qed

subsection \<open>Import files\<close>

lemma falsy_values:
  "\<not> truthy v \<longleftrightarrow> v \<in> {JUndefined, JNull, JBool False, JNumber 0, JString []}"
  by (cases v) auto

text \<open>
  C1 (as amended). Decoding an import file fails, with no call to the browser and with
  the stored sessions unchanged, when the file does not parse, when \<^verbatim>\<open>version\<close> is absent
  or falsy, or when the payload is absent (\<^verbatim>\<open>windows\<close> absent or falsy for a window file,
  \<^verbatim>\<open>sessions\<close> not an array for a session file). The version is tested for presence
  only: with any truthy version and an array payload the file is accepted, and the
  windows are replayed or the sessions merged.
\<close>

theorem import_checks_presence_only:
  "(\<not> truthy (data ''version'') \<or> \<not> truthy (data ''windows'')
      \<longrightarrow> importTabs h (Parsed data) = (Failure InvalidFileFormat, [], []))
   \<and> (truthy (data ''version'') \<and> data ''windows'' = JArray ws
      \<longrightarrow> importTabs h (Parsed data) = (Success, createWindows h ws ([], [])))
   \<and> (\<not> truthy (file ''version'') \<or> \<not> isArray (file ''sessions'')
      \<longrightarrow> importSessions (Parsed file) stored = (Inl InvalidFileFormat, stored))
   \<and> (truthy (file ''version'') \<and> file ''sessions'' = JArray incoming
      \<longrightarrow> importSessions (Parsed file) stored =
            (Inr (mergeImport incoming stored), merged (mergeImport incoming stored)))
   \<and> importTabs h NotJson = (Failure SyntaxError, [], [])
   \<and> importTabs h JsonNull = (Failure TypeError, [], [])
   \<and> importSessions NotJson stored = (Inl SyntaxError, stored)
   \<and> importSessions JsonNull stored = (Inl TypeError, stored)
   \<and> \<not> truthy (JUndefined :: windowData jsValue)
   \<and> \<not> isArray (JUndefined :: session jsValue)"
  by (auto simp: importTabs_def importSessions_def Let_def)

text \<open>
  C1 as stated fails: the exporter writes version 1, and a file with version 2 is
  decoded and used all the same, by both importers.
\<close>

theorem import_accepts_unknown_version:
  "importTabs idealHost
     (Parsed (fileWith (JNumber 2)
        (JArray [\<lparr>focused = True, state = ''normal'',
                  tabs = [\<lparr>url = ''http://a.com/'', active = True, pinned = False, title = ''A''\<rparr>]\<rparr>])
        ''windows''))
   = (Success, [None],
      [WindowsCreate [''http://a.com/''] True, WindowsUpdate 0 ''normal'', TabsUpdateActive 0])
   \<and> importSessions
     (Parsed (fileWith (JNumber 2)
        (JArray [\<lparr>timestamp = 200, tabCount = 1, urls = [''u2''], customName = None\<rparr>])
        ''sessions''))
     []
   = (Inr \<lparr>merged = [\<lparr>timestamp = 200, tabCount = 1, urls = [''u2''], customName = None\<rparr>],
           addedCount = 1, skippedCount = 0\<rparr>,
      [\<lparr>timestamp = 200, tabCount = 1, urls = [''u2''], customName = None\<rparr>])"
  by (simp add: importTabs_def importSessions_def fileWith_def idealHost_def createWindow_def
      setWindowState_def hostUpdate_def activateTab_def tabIdAt_def mergeImport_def Let_def
      toLowerCase_def toLowerChar_def)


theorem import_checks_presence_only_witness:
  "importTabs idealHost (Parsed (fileWith JUndefined (JArray []) ''windows'')) =
     (Failure InvalidFileFormat, [], [])
   \<and> importTabs idealHost (Parsed (fileWith (JNumber 1) (JArray []) ''windows'')) =
     (Success, [], [])
   \<and> importSessions (Parsed (fileWith (JNumber 1) JUndefined ''sessions''))
       [\<lparr>timestamp = 100, tabCount = 1, urls = [''u1''], customName = None\<rparr>] =
     (Inl InvalidFileFormat,
       [\<lparr>timestamp = 100, tabCount = 1, urls = [''u1''], customName = None\<rparr>])
   \<and> importSessions (Parsed (fileWith (JString ''1'') (JArray []) ''sessions''))
       [\<lparr>timestamp = 100, tabCount = 1, urls = [''u1''], customName = None\<rparr>] =
     (Inr \<lparr>merged = [\<lparr>timestamp = 100, tabCount = 1, urls = [''u1''], customName = None\<rparr>],
           addedCount = 0, skippedCount = 0\<rparr>,
       [\<lparr>timestamp = 100, tabCount = 1, urls = [''u1''], customName = None\<rparr>])"
  using
    import_checks_presence_only
      [of "fileWith JUndefined (JArray []) ''windows''" idealHost "[]"
          "fileWith (JNumber 1) JUndefined ''sessions''"
          "[\<lparr>timestamp = 100, tabCount = 1, urls = [''u1''], customName = None\<rparr>]" "[]"]
    import_checks_presence_only
      [of "fileWith (JNumber 1) (JArray []) ''windows''" idealHost "[]"
          "fileWith (JString ''1'') (JArray []) ''sessions''"
          "[\<lparr>timestamp = 100, tabCount = 1, urls = [''u1''], customName = None\<rparr>]" "[]"]
  by (simp add: fileWith_def mergeImport_def)

subsection \<open>Replay\<close>

lemma hostUpdate_trace: "snd (hostUpdate h trace c) = trace @ [c]"
  by (simp add: hostUpdate_def)

lemma pinTabs_trace:
  "\<exists>cs. snd (pinTabs h win i ts trace) = trace @ cs \<and> list_all (laterCall w) cs"
proof (induction ts arbitrary: i trace)
  case Nil
  then show ?case by simp
next
  case (Cons t ts)
  show ?case
  proof (cases "pinned t")
    case False
    then show ?thesis using Cons.IH [of "Suc i" trace] by simp
  next
    case True
    show ?thesis
    proof (cases "tabIdAt win i")
      case (Inl e)
      with True show ?thesis by simp
    next
      case (Inr tid)
      show ?thesis
      proof (cases "accepts h trace (TabsUpdatePinned tid)")
        case False
        with True Inr show ?thesis by (simp add: hostUpdate_def)
      next
        case acc: True
        from Cons.IH [of "Suc i" "trace @ [TabsUpdatePinned tid]"] obtain cs where
          "snd (pinTabs h win (Suc i) ts (trace @ [TabsUpdatePinned tid])) =
             (trace @ [TabsUpdatePinned tid]) @ cs" "list_all (laterCall w) cs"
          by blast
        with True Inr acc show ?thesis by (simp add: hostUpdate_def)
      qed
    qed
  qed
qed

lemma activateTab_trace:
  "\<exists>cs. snd (activateTab h win ts trace) = trace @ cs \<and> list_all (laterCall w) cs"
  by (auto simp: activateTab_def hostUpdate_def split: option.splits sum.splits)

lemma setWindowState_trace:
  "\<exists>cs. snd (setWindowState h win (state w) trace) = trace @ cs \<and> list_all (laterCall w) cs"
  by (auto simp: setWindowState_def hostUpdate_def recognisedStates_def Let_def)

lemma createWindow_trace:
  "\<exists>cs. snd (createWindow h w trace) =
          trace @ WindowsCreate (map url (tabs w)) (focused w) # cs
        \<and> list_all (laterCall w) cs"
proof (cases "create h trace (map url (tabs w)) (focused w)")
  case None
  then show ?thesis by (simp add: createWindow_def Let_def)
next
  case (Some win)
  let ?t1 = "trace @ [WindowsCreate (map url (tabs w)) (focused w)]"
  obtain e2 t2 where s2: "setWindowState h win (state w) ?t1 = (e2, t2)" by fastforce
  obtain c2 where c2: "t2 = ?t1 @ c2" "list_all (laterCall w) c2"
    using setWindowState_trace [of h win w ?t1] s2 by auto
  show ?thesis
  proof (cases e2)
    case (Some e)
    with \<open>create h trace (map url (tabs w)) (focused w) = Some win\<close> s2 c2 show ?thesis
      by (simp add: createWindow_def Let_def)
  next
    case None
    obtain e3 t3 where s3: "pinTabs h win 0 (tabs w) t2 = (e3, t3)" by fastforce
    obtain c3 where c3: "t3 = t2 @ c3" "list_all (laterCall w) c3"
      using pinTabs_trace [of h win 0 "tabs w" t2 w] s3 by auto
    show ?thesis
    proof (cases e3)
      case (Some e)
      with None \<open>create h trace (map url (tabs w)) (focused w) = Some win\<close> s2 s3 c2 c3
      show ?thesis by (simp add: createWindow_def Let_def)
    next
      case n3: None
      obtain c4 where c4: "snd (activateTab h win (tabs w) t3) = t3 @ c4" "list_all (laterCall w) c4"
        using activateTab_trace by blast
      with None n3 \<open>create h trace (map url (tabs w)) (focused w) = Some win\<close> s2 s3 c2 c3
      show ?thesis by (simp add: createWindow_def Let_def)
    qed
  qed
qed


lemma laterCall_not_create: "list_all (laterCall w) cs \<Longrightarrow> filter isCreate cs = []"
proof (induction cs)
  case (Cons c cs)
  then show ?case by (cases c) auto
qed simp

lemma laterCall_update:
  "list_all (laterCall w) cs \<Longrightarrow> WindowsUpdate wid s \<in> set cs \<Longrightarrow>
   s = toLowerCase (state w) \<and> s \<in> set recognisedStates"
  by (induction cs) auto

lemma createWindows_trace:
  "\<exists>cs. snd (createWindows h ws (errors, trace)) = trace @ cs
        \<and> length (filter isCreate cs) = length ws
        \<and> (\<forall>wid s. WindowsUpdate wid s \<in> set cs \<longrightarrow>
              s \<in> set recognisedStates \<and> s \<in> (\<lambda>w. toLowerCase (state w)) ` set ws)
        \<and> length (fst (createWindows h ws (errors, trace))) = length errors + length ws"
proof (induction ws arbitrary: errors trace)
  case Nil
  then show ?case by simp
next
  case (Cons w ws)
  obtain e t1 where cw: "createWindow h w trace = (e, t1)" by fastforce
  obtain c1 where c1: "t1 = trace @ WindowsCreate (map url (tabs w)) (focused w) # c1"
      "list_all (laterCall w) c1"
    using createWindow_trace [of h w trace] cw by auto
  from Cons.IH [of "errors @ [e]" t1] obtain cs where
    cs: "snd (createWindows h ws (errors @ [e], t1)) = t1 @ cs"
      "length (filter isCreate cs) = length ws"
      "\<And>wid s. WindowsUpdate wid s \<in> set cs \<Longrightarrow>
          s \<in> set recognisedStates \<and> s \<in> (\<lambda>w. toLowerCase (state w)) ` set ws"
      "length (fst (createWindows h ws (errors @ [e], t1))) = length (errors @ [e]) + length ws"
    by blast
  let ?cs = "WindowsCreate (map url (tabs w)) (focused w) # c1 @ cs"
  have "snd (createWindows h (w # ws) (errors, trace)) = trace @ ?cs"
    using cw c1(1) cs(1) by simp
  moreover have "length (filter isCreate ?cs) = length (w # ws)"
    using laterCall_not_create [OF c1(2)] cs(2) by simp
  moreover have "s \<in> set recognisedStates \<and> s \<in> (\<lambda>w. toLowerCase (state w)) ` set (w # ws)"
    if "WindowsUpdate wid s \<in> set ?cs" for wid s
  proof -
    from that consider "WindowsUpdate wid s \<in> set c1" | "WindowsUpdate wid s \<in> set cs"
      by auto
    then show ?thesis
    proof cases
      case 1
      from laterCall_update [OF c1(2) 1] show ?thesis by auto
    next
      case 2
      from cs(3) [OF 2] show ?thesis by auto
    qed
  qed
  moreover have "length (fst (createWindows h (w # ws) (errors, trace))) =
      length errors + length (w # ws)"
    using cw cs(4) by simp
  ultimately show ?case by blast
qed

lemma pinTabs_accepting:
  assumes "\<And>trace c. accepts h trace c" and "i + length ts \<le> length (windowTabs win)"
  shows "fst (pinTabs h win i ts trace) = None"
  using assms(2)
proof (induction ts arbitrary: i trace)
  case Nil
  then show ?case by simp
next
  case (Cons t ts)
  then have "i < length (windowTabs win)" "Suc i + length ts \<le> length (windowTabs win)"
    by simp_all
  with Cons.IH assms(1) show ?case
    by (simp add: tabIdAt_def hostUpdate_def)
qed

lemma findIndex_less: "findIndex p xs = Some i \<Longrightarrow> i < length xs"
  by (induction xs arbitrary: i) (auto split: if_splits)

lemma createWindow_accepting:
  assumes "acceptingHost h"
  shows "fst (createWindow h w trace) = None"
proof -
  from assms have acc: "\<And>trace c. accepts h trace c"
    by (simp add: acceptingHost_def)
  from assms obtain win where win: "create h trace (map url (tabs w)) (focused w) = Some win"
      "length (windowTabs win) = length (tabs w)"
    unfolding acceptingHost_def by (metis length_map)
  let ?t1 = "trace @ [WindowsCreate (map url (tabs w)) (focused w)]"
  have "fst (setWindowState h win (state w) ?t1) = None"
    using acc by (simp add: setWindowState_def hostUpdate_def Let_def)
  then obtain t2 where s2: "setWindowState h win (state w) ?t1 = (None, t2)"
    by (metis prod.collapse)
  obtain t3 where s3: "pinTabs h win 0 (tabs w) t2 = (None, t3)"
    using pinTabs_accepting [of h 0 "tabs w" win t2] acc win(2)
    by (metis add_0 order_refl prod.collapse)
  have "fst (activateTab h win (tabs w) t3) = None"
    using acc win(2) findIndex_less [of active "tabs w"]
    by (auto simp: activateTab_def tabIdAt_def hostUpdate_def split: option.splits)
  with win(1) s2 s3 show ?thesis
    by (simp add: createWindow_def Let_def split: prod.splits option.splits)
qed

lemma createWindows_accepting:
  "acceptingHost h \<Longrightarrow>
   fst (createWindows h ws (errors, trace)) = errors @ replicate (length ws) None"
proof (induction ws arbitrary: errors trace)
  case Nil
  then show ?case by simp
next
  case (Cons w ws)
  obtain t1 where "createWindow h w trace = (None, t1)"
    using createWindow_accepting [OF Cons.prems, of w trace] by (metis prod.collapse)
  with Cons.IH [OF Cons.prems, of "errors @ [None]" t1] show ?case
    by (simp add: replicate_app_Cons_same)
qed

lemma acceptingHost_idealHost: "acceptingHost idealHost"
  by (simp add: acceptingHost_def idealHost_def)

text \<open>
  C8. During replay a window state is applied only when, lower-cased, it is one of the
  three literals minimized, maximized, normal: every state update sent to the browser
  carries one of them and is the lower-cased state of a window of the file. For any
  other state string the state step sends nothing and raises nothing, so the window's
  state is left as created. Every window of the file is attempted whatever the states
  are, and with a browser that never fails no window logs an error. A file whose first
  window has state sideways is replayed in full: the first window is created, pinned and
  activated without a state update, and the second window follows.
\<close>

theorem replay_applies_only_recognised_state:
  "(\<forall>wid s. WindowsUpdate wid s \<in> set (snd (createWindows h ws ([], []))) \<longrightarrow>
        s \<in> set [''minimized'', ''maximized'', ''normal'']
        \<and> s \<in> (\<lambda>w. toLowerCase (state w)) ` set ws)
   \<and> (toLowerCase st \<notin> set [''minimized'', ''maximized'', ''normal''] \<longrightarrow>
        setWindowState h win st trace = (None, trace))
   \<and> (toLowerCase st \<in> set [''minimized'', ''maximized'', ''normal''] \<longrightarrow>
        setWindowState h win st trace =
          hostUpdate h trace (WindowsUpdate (windowId win) (toLowerCase st)))
   \<and> length (filter isCreate (snd (createWindows h ws ([], [])))) = length ws
   \<and> (acceptingHost h \<longrightarrow> fst (createWindows h ws ([], [])) = replicate (length ws) None)
   \<and> createWindows idealHost
        [\<lparr>focused = True, state = ''sideways'',
          tabs = [\<lparr>url = ''http://a.com/'', active = False, pinned = True, title = ''A''\<rparr>,
                  \<lparr>url = ''http://b.com/'', active = True, pinned = False, title = ''B''\<rparr>]\<rparr>,
         \<lparr>focused = False, state = ''MAXIMIZED'',
          tabs = [\<lparr>url = ''http://c.com/'', active = True, pinned = False, title = ''C''\<rparr>]\<rparr>]
        ([], []) =
       ([None, None],
        [WindowsCreate [''http://a.com/'', ''http://b.com/''] True,
         TabsUpdatePinned 0, TabsUpdateActive 1,
         WindowsCreate [''http://c.com/''] False, WindowsUpdate 3 ''maximized'',
         TabsUpdateActive 300])"
proof (intro conjI allI impI)
  fix wid s
  assume "WindowsUpdate wid s \<in> set (snd (createWindows h ws ([], [])))"
  with createWindows_trace [of h ws "[]" "[]"]
  have "s \<in> set recognisedStates \<and> s \<in> (\<lambda>w. toLowerCase (state w)) ` set ws"
    by auto
  then show "s \<in> set [''minimized'', ''maximized'', ''normal'']"
    and "s \<in> (\<lambda>w. toLowerCase (state w)) ` set ws"
    by (simp_all add: recognisedStates_def)
next
  assume "toLowerCase st \<notin> set [''minimized'', ''maximized'', ''normal'']"
  then show "setWindowState h win st trace = (None, trace)"
    by (simp add: setWindowState_def Let_def)
next
  assume "toLowerCase st \<in> set [''minimized'', ''maximized'', ''normal'']"
  then show "setWindowState h win st trace =
      hostUpdate h trace (WindowsUpdate (windowId win) (toLowerCase st))"
    by (simp add: setWindowState_def Let_def)
next
  show "length (filter isCreate (snd (createWindows h ws ([], [])))) = length ws"
    using createWindows_trace [of h ws "[]" "[]"] by auto
next
  assume "acceptingHost h"
  then show "fst (createWindows h ws ([], [])) = replicate (length ws) None"
    using createWindows_accepting [of h ws "[]" "[]"] by simp
next
  show "createWindows idealHost
        [\<lparr>focused = True, state = ''sideways'',
          tabs = [\<lparr>url = ''http://a.com/'', active = False, pinned = True, title = ''A''\<rparr>,
                  \<lparr>url = ''http://b.com/'', active = True, pinned = False, title = ''B''\<rparr>]\<rparr>,
         \<lparr>focused = False, state = ''MAXIMIZED'',
          tabs = [\<lparr>url = ''http://c.com/'', active = True, pinned = False, title = ''C''\<rparr>]\<rparr>]
        ([], []) =
       ([None, None],
        [WindowsCreate [''http://a.com/'', ''http://b.com/''] True,
         TabsUpdatePinned 0, TabsUpdateActive 1,
         WindowsCreate [''http://c.com/''] False, WindowsUpdate 3 ''maximized'',
         TabsUpdateActive 300])"
    by code_simp
qed

theorem replay_applies_only_recognised_state_witness:
  "toLowerCase ''Sideways'' \<notin> set [''minimized'', ''maximized'', ''normal'']
   \<and> setWindowState idealHost \<lparr>windowId = 7, windowTabs = [70]\<rparr> ''Sideways'' [] = (None, [])
   \<and> toLowerCase ''Normal'' \<in> set [''minimized'', ''maximized'', ''normal'']
   \<and> setWindowState idealHost \<lparr>windowId = 7, windowTabs = [70]\<rparr> ''Normal'' [] =
        (None, [WindowsUpdate 7 ''normal''])
   \<and> acceptingHost idealHost
   \<and> fst (createWindows idealHost
        [\<lparr>focused = True, state = ''Sideways'',
          tabs = [\<lparr>url = ''http://a.com/'', active = True, pinned = False, title = ''A''\<rparr>]\<rparr>]
        ([], [])) = [None]
   \<and> length (filter isCreate (snd (createWindows idealHost
        [\<lparr>focused = True, state = ''Sideways'',
          tabs = [\<lparr>url = ''http://a.com/'', active = True, pinned = False, title = ''A''\<rparr>]\<rparr>]
        ([], [])))) = 1"
proof -
  let ?w = "\<lparr>focused = True, state = ''Sideways'',
    tabs = [\<lparr>url = ''http://a.com/'', active = True, pinned = False, title = ''A''\<rparr>]\<rparr>"
  let ?win = "\<lparr>windowId = 7, windowTabs = [70]\<rparr>"
  note all = replay_applies_only_recognised_state [of idealHost "[?w]" _ ?win "[]"]
  have s: "toLowerCase ''Sideways'' \<notin> set [''minimized'', ''maximized'', ''normal'']"
    by code_simp
  have n: "toLowerCase ''Normal'' \<in> set [''minimized'', ''maximized'', ''normal'']"
    by code_simp
  have l: "toLowerCase ''Normal'' = ''normal''" by code_simp
  from all [of "''Sideways''"] s
  have c1: "setWindowState idealHost ?win ''Sideways'' [] = (None, [])" by blast
  from all [of "''Normal''"] n
  have "setWindowState idealHost ?win ''Normal'' [] =
      hostUpdate idealHost [] (WindowsUpdate (windowId ?win) (toLowerCase ''Normal''))"
    by blast
  then have c2: "setWindowState idealHost ?win ''Normal'' [] = (None, [WindowsUpdate 7 ''normal''])"
    by (simp add: l hostUpdate_def idealHost_def)
  from all [of "''Sideways''"] acceptingHost_idealHost
  have c3: "fst (createWindows idealHost [?w] ([], [])) = replicate (length [?w]) None"
    and c4: "length (filter isCreate (snd (createWindows idealHost [?w] ([], [])))) = length [?w]"
    by blast+
  from s n c1 c2 c3 c4 acceptingHost_idealHost show ?thesis by simp
qed

subsection \<open>URL extraction and sanitizing\<close>

text \<open>The matcher decides membership in the language of the expression.\<close>

lemma conc_iff: "w \<in> conc A B \<longleftrightarrow> (\<exists>u v. w = u @ v \<and> u \<in> A \<and> v \<in> B)"
  by (auto simp: conc_def)

lemma conc_Nil: "[] \<in> conc A B \<longleftrightarrow> [] \<in> A \<and> [] \<in> B"
  by (auto simp: conc_def)

lemma conc_Cons:
  "c # w \<in> conc A B \<longleftrightarrow>
     ([] \<in> A \<and> c # w \<in> B) \<or> (\<exists>u v. w = u @ v \<and> c # u \<in> A \<and> v \<in> B)"
proof
  assume "c # w \<in> conc A B"
  then obtain u v where uv: "c # w = u @ v" "u \<in> A" "v \<in> B"
    by (auto simp: conc_def)
  show "([] \<in> A \<and> c # w \<in> B) \<or> (\<exists>u v. w = u @ v \<and> c # u \<in> A \<and> v \<in> B)"
  proof (cases u)
    case Nil
    with uv show ?thesis by simp
  next
    case (Cons d u')
    with uv have "w = u' @ v" "c # u' \<in> A" by simp_all
    with uv(3) show ?thesis by blast
  qed
next
  assume "([] \<in> A \<and> c # w \<in> B) \<or> (\<exists>u v. w = u @ v \<and> c # u \<in> A \<and> v \<in> B)"
  then show "c # w \<in> conc A B"
  proof
    assume "[] \<in> A \<and> c # w \<in> B"
    then have "[] @ (c # w) \<in> conc A B" unfolding conc_def by blast
    then show ?thesis by simp
  next
    assume "\<exists>u v. w = u @ v \<and> c # u \<in> A \<and> v \<in> B"
    then obtain u v where "w = u @ v" "c # u \<in> A" "v \<in> B" by blast
    then have "(c # u) @ v \<in> conc A B" unfolding conc_def by blast
    with \<open>w = u @ v\<close> show ?thesis by simp
  qed
qed

lemma star_Cons:
  "c # w \<in> star A \<longleftrightarrow> (\<exists>u v. w = u @ v \<and> c # u \<in> A \<and> v \<in> star A)"
proof
  assume "c # w \<in> star A"
  then show "\<exists>u v. w = u @ v \<and> c # u \<in> A \<and> v \<in> star A"
  proof (induction "c # w" rule: star.induct)
    case (star_more u v)
    show ?case
    proof (cases u)
      case Nil
      with star_more show ?thesis by simp
    next
      case (Cons d u')
      with star_more(1,2,4) have "w = u' @ v" "c # u' \<in> A" "v \<in> star A" by simp_all
      then show ?thesis by blast
    qed
  qed
next
  assume "\<exists>u v. w = u @ v \<and> c # u \<in> A \<and> v \<in> star A"
  then obtain u v where "w = u @ v" "c # u \<in> A" "v \<in> star A" by blast
  then have "(c # u) @ v \<in> star A" by (intro star_more)
  with \<open>w = u @ v\<close> show "c # w \<in> star A" by simp
qed

lemma repeatUpTo_Nil: "[] \<in> repeatUpTo n A"
  by (cases n) simp_all

lemma repeatUpTo_mono: "w \<in> repeatUpTo n A \<Longrightarrow> w \<in> repeatUpTo (Suc n) A"
proof (induction n arbitrary: w)
  case 0
  then show ?case by simp
next
  case (Suc n)
  from Suc.prems consider "w = []" | u v where "w = u @ v" "u \<in> A" "v \<in> repeatUpTo n A"
    by (auto simp: conc_iff)
  then show ?case
  proof cases
    case 1
    then show ?thesis by simp
  next
    case 2
    from Suc.IH [OF 2(3)] 2(1,2) have "w \<in> conc A (repeatUpTo (Suc n) A)"
      unfolding conc_iff by blast
    then show ?thesis by simp
  qed
qed

lemma repeatUpTo_Cons:
  "c # w \<in> repeatUpTo n A \<longleftrightarrow>
     n \<noteq> 0 \<and> (\<exists>u v. w = u @ v \<and> c # u \<in> A \<and> v \<in> repeatUpTo (n - 1) A)"
proof (induction n)
  case 0
  then show ?case by simp
next
  case (Suc n)
  show ?case
  proof
    assume "c # w \<in> repeatUpTo (Suc n) A"
    then have "c # w \<in> conc A (repeatUpTo n A)" by simp
    then consider "c # w \<in> repeatUpTo n A"
      | "\<exists>u v. w = u @ v \<and> c # u \<in> A \<and> v \<in> repeatUpTo n A"
      unfolding conc_Cons by blast
    then show "Suc n \<noteq> 0 \<and> (\<exists>u v. w = u @ v \<and> c # u \<in> A \<and> v \<in> repeatUpTo (Suc n - 1) A)"
    proof cases
      case 1
      with Suc.IH obtain u v where n: "n \<noteq> 0" and
        "w = u @ v" "c # u \<in> A" "v \<in> repeatUpTo (n - 1) A" by blast
      moreover from n obtain m where "n = Suc m" by (cases n) auto
      ultimately have "w = u @ v" "c # u \<in> A" "v \<in> repeatUpTo n A"
        using repeatUpTo_mono [of v m A] by simp_all
      then show ?thesis by auto
    next
      case 2
      then show ?thesis by simp
    qed
  next
    assume "Suc n \<noteq> 0 \<and> (\<exists>u v. w = u @ v \<and> c # u \<in> A \<and> v \<in> repeatUpTo (Suc n - 1) A)"
    then have "c # w \<in> conc A (repeatUpTo n A)"
      unfolding conc_Cons by simp
    then show "c # w \<in> repeatUpTo (Suc n) A" by simp
  qed
qed

lemma nullable_lang: "nullable r \<longleftrightarrow> [] \<in> lang r"
  by (induction r) (auto simp: conc_Nil repeatUpTo_Nil intro: star_empty)

lemma deriv_lang: "w \<in> lang (deriv c r) \<longleftrightarrow> c # w \<in> lang r"
proof (induction r arbitrary: w)
  case (Seq r s)
  have "w \<in> conc (lang (deriv c r)) (lang s) \<longleftrightarrow>
      (\<exists>u v. w = u @ v \<and> c # u \<in> lang r \<and> v \<in> lang s)"
    by (simp add: conc_iff Seq.IH)
  with Seq.IH(2) [of w] show ?case
    by (simp add: conc_Cons nullable_lang) blast
next
  case (Star r)
  have "w \<in> conc (lang (deriv c r)) (star (lang r)) \<longleftrightarrow>
      (\<exists>u v. w = u @ v \<and> c # u \<in> lang r \<and> v \<in> star (lang r))"
    by (simp add: conc_iff Star.IH)
  then show ?case by (simp add: star_Cons)
next
  case (Upto n r)
  have "w \<in> conc (lang (deriv c r)) (repeatUpTo (n - 1) (lang r)) \<longleftrightarrow>
      (\<exists>u v. w = u @ v \<and> c # u \<in> lang r \<and> v \<in> repeatUpTo (n - 1) (lang r))"
    by (simp add: conc_iff Upto.IH)
  then show ?case by (simp add: repeatUpTo_Cons)
qed auto

lemma rxTest_lang: "rxTest r s \<longleftrightarrow> s \<in> lang r"
  unfolding rxTest_def
proof (induction s arbitrary: r)
  case Nil
  then show ?case by (simp add: nullable_lang)
next
  case (Cons c s)
  then show ?case by (simp add: deriv_lang)
qed

lemma isValidUrl_examples:
  "\<not> isValidUrl whatwgSample ''javascript:alert(1)''
   \<and> isValidUrl whatwgSample ''https://example.com/a''"
  by code_simp

lemma removeTags_prefix:
  "CHR ''<'' \<notin> set p \<Longrightarrow> removeTags (p @ t) = p @ removeTags t"
  by (induction p) auto

lemma removeTags_id: "CHR ''<'' \<notin> set s \<Longrightarrow> removeTags s = s"
  using removeTags_prefix [of s "[]"] by simp

lemma removeSuspicious_id: "set s \<inter> set suspicious = {} \<Longrightarrow> removeSuspicious s = s"
  by (auto simp: removeSuspicious_def filter_id_conv)






text \<open>
  C5 as stated fails. The serialized URL http://a.com/.(./x loses its parenthesis, and
  what is left, http://a.com/../x, is a different URL: sanitizing it again resolves the
  dot segment and gives http://a.com/x.
\<close>

theorem sanitizeUrl_not_idempotent:
  "sanitizeUrl whatwgSample ''http://a.com/.(./x'' = ''http://a.com/../x''
   \<and> sanitizeUrl whatwgSample (sanitizeUrl whatwgSample ''http://a.com/.(./x'') = ''http://a.com/x''"
  by code_simp

text \<open>
  C5 (as amended). Provided the empty string does not parse and serialization is stable
  under parsing, sanitizing is idempotent on every input it rejects (the empty result
  stays empty) and on every input whose serialization holds none of the characters
  \<^verbatim>\<open>< > ' " ( )\<close>, so that nothing is stripped from it.
\<close>

theorem sanitizeUrl_idempotent_when_nothing_stripped:
  assumes "parse [] = None"
    and "reparses parse"
    and "sanitizeUrl parse x = [] \<or>
         (\<exists>u. parse x = Some u \<and> set (href u) \<inter> set suspicious = {})"
  shows "sanitizeUrl parse (sanitizeUrl parse x) = sanitizeUrl parse x"
proof -
  have empty: "sanitizeUrl parse [] = []"
    using assms(1) by (simp add: sanitizeUrl_def)
  show ?thesis
  proof (cases "sanitizeUrl parse x = []")
    case True
    with empty show ?thesis by simp
  next
    case False
    with assms(3) obtain u where u: "parse x = Some u" "set (href u) \<inter> set suspicious = {}"
      by blast
    from False u(1) have ok: "protocol u \<in> set allowedProtocols"
      by (auto simp: sanitizeUrl_def split: if_splits)
    have clean: "removeSuspicious (removeTags (href u)) = href u"
    proof -
      from u(2) have "CHR ''<'' \<notin> set (href u)"
        by (auto simp: suspicious_def)
      then have "removeTags (href u) = href u" by (rule removeTags_id)
      with u(2) show ?thesis by (simp add: removeSuspicious_id)
    qed
    with u(1) ok have first: "sanitizeUrl parse x = href u"
      by (simp add: sanitizeUrl_def)
    from assms(2) u(1) obtain u' where
      u': "parse (href u) = Some u'" "href u' = href u" "protocol u' = protocol u"
      unfolding reparses_def by blast
    with ok clean have "sanitizeUrl parse (href u) = href u"
      by (simp add: sanitizeUrl_def)
    with first show ?thesis by simp
  qed
qed

lemma reparses_whatwgSample: "reparses whatwgSample"
  unfolding reparses_def whatwgSample_def
  by (auto simp: href_def split: if_splits)

theorem sanitizeUrl_idempotent_when_nothing_stripped_witness:
  "whatwgSample [] = None
   \<and> reparses whatwgSample
   \<and> sanitizeUrl whatwgSample ''https://a.com'' = ''https://a.com/''
   \<and> sanitizeUrl whatwgSample (sanitizeUrl whatwgSample ''https://a.com'') =
       sanitizeUrl whatwgSample ''https://a.com''
   \<and> sanitizeUrl whatwgSample ''javascript:alert(1)'' = []
   \<and> sanitizeUrl whatwgSample (sanitizeUrl whatwgSample ''javascript:alert(1)'') =
       sanitizeUrl whatwgSample ''javascript:alert(1)''"
proof -
  have e: "whatwgSample [] = None" by (simp add: whatwgSample_def)
  have p: "\<exists>u. whatwgSample ''https://a.com'' = Some u \<and> set (href u) \<inter> set suspicious = {}"
    by (simp add: whatwgSample_def href_def suspicious_def)
  have s: "sanitizeUrl whatwgSample ''https://a.com'' = ''https://a.com/''"
    by code_simp
  have j: "sanitizeUrl whatwgSample ''javascript:alert(1)'' = []"
    by code_simp
  from sanitizeUrl_idempotent_when_nothing_stripped [OF e reparses_whatwgSample, of "''https://a.com''"]
    sanitizeUrl_idempotent_when_nothing_stripped [OF e reparses_whatwgSample, of "''javascript:alert(1)''"]
    e reparses_whatwgSample p s j
  show ?thesis by blast
qed

subsection \<open>Grouping by domain\<close>

lemma bucketAt_update:
  "bucketAt (AList.update b (AList.update s arr inner) g) b' s' =
     (if b' = b then (if s' = s then arr else (case map_of inner s' of Some a \<Rightarrow> a | None \<Rightarrow> []))
      else bucketAt g b' s')"
  by (simp add: bucketAt_def update_conv')

lemma bucketAt_update_same:
  "bucketAt (AList.update b inner g) b' s' =
     (if b' = b then (case map_of inner s' of Some a \<Rightarrow> a | None \<Rightarrow> []) else bucketAt g b' s')"
  by (simp add: bucketAt_def update_conv')

lemma wellFormed_update:
  assumes "wellFormed g" and "b \<notin> set objectPrototypeKeys" and "distinct (map fst inner)"
    and "\<And>s arr. map_of inner s = Some arr \<Longrightarrow> arr \<noteq> []"
  shows "wellFormed (AList.update b inner g)"
  using assms unfolding wellFormed_def
  by (auto simp: update_conv' distinct_update split: if_splits)

lemma length_two:
  assumes "length xs = Suc (Suc 0)"
  shows "\<exists>p q. xs = [p, q]"
proof -
  from assms obtain p ys where xs: "xs = p # ys" and "length ys = Suc 0"
    by (auto simp: length_Suc_conv)
  then obtain q where "ys = [q]" by (auto simp: length_Suc_conv)
  with xs show ?thesis by blast
qed

lemma last_two_joined:
  assumes "2 < length parts"
  shows "\<exists>p q. joinDot (drop (length parts - 2) parts) = p @ CHR ''.'' # q"
proof -
  from assms have "length (drop (length parts - 2) parts) = Suc (Suc 0)" by simp
  then obtain p q where "drop (length parts - 2) parts = [p, q]"
    using length_two by blast
  then have "joinDot (drop (length parts - 2) parts) = p @ CHR ''.'' # q"
    by simp
  then show ?thesis by blast
qed

lemma base_without_dot:
  assumes "CHR ''.'' \<notin> set (baseDomain host)"
  shows "subdomain host = []"
proof (cases "2 < length (splitDot host)")
  case True
  from last_two_joined [OF True] obtain p q where
    "baseDomain host = p @ CHR ''.'' # q"
    unfolding baseDomain_def Let_def by blast
  with assms show ?thesis by simp
next
  case False
  then have "length (splitDot host) - 2 = 0" by simp
  then show ?thesis unfolding subdomain_def Let_def by simp
qed

lemma base_empty_sub_empty: "baseDomain host = [] \<Longrightarrow> subdomain host = []"
  by (rule base_without_dot) simp

lemma keys_without_dot: "list_all (\<lambda>k. CHR ''.'' \<notin> set k) objectPrototypeKeys"
  by (simp add: objectPrototypeKeys_def)

lemma base_key_sub_empty:
  "baseDomain host \<in> set objectPrototypeKeys \<Longrightarrow> subdomain host = []"
  using keys_without_dot by (intro base_without_dot) (simp add: list_all_iff)

text \<open>The effect of one step: the tab is recorded in its bucket, or it is dropped.\<close>

lemma groupStep_cases:
  assumes wf: "wellFormed g"
    and step: "groupStep host t (g, pol) = Inr (g', pol')"
  defines "b \<equiv> baseDomain host" and "s \<equiv> subdomain host"
  shows "wellFormed g' \<and> (pol \<longrightarrow> pol') \<and>
     ((\<not> dead pol b s \<or> bucketAt g b s \<noteq> []) \<and> pol' = pol \<and>
        (\<forall>b' s'. bucketAt g' b' s' =
            (if b' = b \<and> s' = s then bucketAt g b s @ [t] else bucketAt g b' s'))
      \<or> bucketAt g b s = [] \<and> dead pol' b s \<and>
        (\<forall>b' s'. bucketAt g' b' s' = bucketAt g b' s'))"
proof (cases "map_of g b")
  case None
  note gb = None
  have b0: "bucketAt g b s' = []" for s' by (simp add: bucketAt_def gb)
  show ?thesis
  proof (cases "b \<in> set objectPrototypeKeys")
    case True
    with step gb have "g' = g" "pol' = (pol \<or> b = ''__proto__'')"
      by (auto simp: groupStep_def b_def s_def Let_def)
    with wf True b0 show ?thesis by (auto simp: dead_def)
  next
    case nk: False
    show ?thesis
    proof (cases "b = [] \<and> pol")
      case True
      with step gb nk have "g' = g" "pol' = pol"
        by (auto simp: groupStep_def b_def s_def Let_def)
      moreover have "s = []"
        using True base_empty_sub_empty [of host] by (simp add: b_def s_def)
      ultimately show ?thesis using wf True b0 by (auto simp: dead_def)
    next
      case False
      with step gb nk obtain inner' where
        p: "pushInto pol [] s t = Inr inner'" and g': "g' = AList.update b inner' g" and pp: "pol' = pol"
        by (auto simp: groupStep_def b_def s_def Let_def split: sum.splits)
      show ?thesis
      proof (cases "s = [] \<and> pol")
        case True
        with p have "inner' = []" by (auto simp: pushInto_def split: if_splits)
        with g' have "wellFormed g'" using wellFormed_update [OF wf nk, of "[]"] by simp
        moreover have "bucketAt g' b' s' = bucketAt g b' s'" for b' s'
          using g' \<open>inner' = []\<close> b0 by (simp add: bucketAt_update_same)
        ultimately show ?thesis using True pp b0 by (auto simp: dead_def)
      next
        case ns: False
        with p have i': "inner' = AList.update s [t] []" and sk: "s \<notin> set objectPrototypeKeys"
          by (auto simp: pushInto_def split: if_splits)
        have "wellFormed g'"
          unfolding g' using wf nk
          by (rule wellFormed_update) (auto simp: i' split: if_splits)
        moreover have "bucketAt g' b' s' =
            (if b' = b \<and> s' = s then bucketAt g b s @ [t] else bucketAt g b' s')" for b' s'
          unfolding g' i' using b0 by (auto simp: bucketAt_update_same)
        moreover have "\<not> dead pol b s" using nk ns by (auto simp: dead_def)
        ultimately show ?thesis using pp by blast
      qed
    qed
  qed
next
  case (Some inner)
  note gb = Some
  from wf gb have nk: "b \<notin> set objectPrototypeKeys" and di: "distinct (map fst inner)"
    and ne: "\<And>s arr. map_of inner s = Some arr \<Longrightarrow> arr \<noteq> []"
    unfolding wellFormed_def by blast+
  from step gb obtain inner' where
    p: "pushInto pol inner s t = Inr inner'" and g': "g' = AList.update b inner' g" and pp: "pol' = pol"
    by (auto simp: groupStep_def b_def s_def Let_def split: sum.splits)
  have same: "bucketAt g b s' = (case map_of inner s' of Some a \<Rightarrow> a | None \<Rightarrow> [])" for s'
    by (simp add: bucketAt_def gb)
  show ?thesis
  proof (cases "map_of inner s")
    case (Some arr)
    with p have i': "inner' = AList.update s (arr @ [t]) inner"
      by (simp add: pushInto_def)
    have "wellFormed g'"
      unfolding g' using wf nk
      by (rule wellFormed_update) (use di ne in \<open>auto simp: i' update_conv' distinct_update split: if_splits\<close>)
    moreover have "bucketAt g b s = arr" using Some same by simp
    moreover from this ne [OF Some] have "bucketAt g b s \<noteq> []" by simp
    moreover have "bucketAt g' b' s' =
        (if b' = b \<and> s' = s then bucketAt g b s @ [t] else bucketAt g b' s')" for b' s'
      unfolding g' i' using same Some by (simp add: bucketAt_update)
    ultimately show ?thesis using pp by blast
  next
    case None
    then have e: "bucketAt g b s = []" using same by simp
    show ?thesis
    proof (cases "s = [] \<and> pol")
      case True
      with p None have "inner' = inner" by (auto simp: pushInto_def split: if_splits)
      with g' have "wellFormed g'"
        using wellFormed_update [OF wf nk di] ne by simp
      moreover have "bucketAt g' b' s' = bucketAt g b' s'" for b' s'
        using g' \<open>inner' = inner\<close> same by (simp add: bucketAt_update_same)
      ultimately show ?thesis using True pp e by (auto simp: dead_def)
    next
      case ns: False
      with p None have i': "inner' = AList.update s [t] inner" and sk: "s \<notin> set objectPrototypeKeys"
        by (auto simp: pushInto_def split: if_splits)
      have "wellFormed g'"
        unfolding g' using wf nk
        by (rule wellFormed_update) (use di ne in \<open>auto simp: i' update_conv' distinct_update split: if_splits\<close>)
      moreover have "bucketAt g' b' s' =
          (if b' = b \<and> s' = s then bucketAt g b s @ [t] else bucketAt g b' s')" for b' s'
        unfolding g' i' using same e by (simp add: bucketAt_update)
      moreover have "\<not> dead pol b s" using nk ns by (auto simp: dead_def)
      ultimately show ?thesis using pp by blast
    qed
  qed
qed


lemma passInv_step:
  assumes inv: "passInv parse P g pol"
    and u: "parse (url t) = Some u"
    and step: "groupStep (hostname u) t (g, pol) = Inr (g', pol')"
  shows "passInv parse (P @ [t]) g' pol'"
proof -
  let ?b = "baseDomain (hostname u)" and ?s = "subdomain (hostname u)"
  have key: "tabKey parse t = (?b, ?s)" by (simp add: tabKey_def u)
  from inv have wf: "wellFormed g"
    and buckets: "\<And>b s. bucketAt g b s = filter (\<lambda>t. tabKey parse t = (b, s)) P
        \<or> (bucketAt g b s = [] \<and> dead pol b s)"
    by (auto simp: passInv_def)
  from groupStep_cases [OF wf step] have wf': "wellFormed g'" and mono: "pol \<longrightarrow> pol'"
    and cases: "(\<not> dead pol ?b ?s \<or> bucketAt g ?b ?s \<noteq> []) \<and> pol' = pol \<and>
        (\<forall>b' s'. bucketAt g' b' s' =
            (if b' = ?b \<and> s' = ?s then bucketAt g ?b ?s @ [t] else bucketAt g b' s'))
      \<or> bucketAt g ?b ?s = [] \<and> dead pol' ?b ?s \<and>
        (\<forall>b' s'. bucketAt g' b' s' = bucketAt g b' s')"
    by blast+
  have dead_mono: "dead pol b s \<Longrightarrow> dead pol' b s" for b s
    using mono by (auto simp: dead_def)
  have "bucketAt g' b s = filter (\<lambda>t. tabKey parse t = (b, s)) (P @ [t])
      \<or> (bucketAt g' b s = [] \<and> dead pol' b s)" for b s
  proof (cases "b = ?b \<and> s = ?s")
    case True
    from cases show ?thesis
    proof
      assume rec: "(\<not> dead pol ?b ?s \<or> bucketAt g ?b ?s \<noteq> []) \<and> pol' = pol \<and>
        (\<forall>b' s'. bucketAt g' b' s' =
            (if b' = ?b \<and> s' = ?s then bucketAt g ?b ?s @ [t] else bucketAt g b' s'))"
      with buckets [of ?b ?s] have "bucketAt g ?b ?s = filter (\<lambda>t. tabKey parse t = (?b, ?s)) P"
        by blast
      with rec True key show ?thesis by simp
    next
      assume "bucketAt g ?b ?s = [] \<and> dead pol' ?b ?s \<and>
        (\<forall>b' s'. bucketAt g' b' s' = bucketAt g b' s')"
      with True show ?thesis by simp
    qed
  next
    case False
    with key have nk: "tabKey parse t \<noteq> (b, s)" by auto
    from cases False have "bucketAt g' b s = bucketAt g b s" by auto
    with buckets [of b s] nk dead_mono show ?thesis by auto
  qed
  with wf' show ?thesis by (simp add: passInv_def)
qed

lemma groupPass1_inv:
  "passInv parse P g pol \<Longrightarrow> groupPass1 parse ts (g, pol) = Inr (g', pol') \<Longrightarrow>
   passInv parse (P @ ts) g' pol'"
proof (induction ts arbitrary: P g pol)
  case Nil
  then show ?case by simp
next
  case (Cons t ts)
  from Cons.prems(2) obtain u g1 pol1 where
    u: "parse (url t) = Some u" and
    step: "groupStep (hostname u) t (g, pol) = Inr (g1, pol1)" and
    rest: "groupPass1 parse ts (g1, pol1) = Inr (g', pol')"
    by (auto split: option.splits sum.splits)
  from passInv_step [OF Cons.prems(1) u step] have "passInv parse (P @ [t]) g1 pol1" .
  from Cons.IH [OF this rest] show ?case by simp
qed

lemma passInv_init: "passInv parse [] [] pol"
  by (simp add: passInv_def wellFormed_def bucketAt_def)

lemma filter_concat_map_one:
  assumes "distinct ks" and "\<And>k'. k' \<in> set ks \<Longrightarrow> k' \<noteq> k \<Longrightarrow> filter P (f k') = []"
  shows "filter P (concat (map f ks)) = (if k \<in> set ks then filter P (f k) else [])"
  using assms by (induction ks) auto

lemma sorted_wrt_concat_map:
  assumes "sorted_wrt less ks"
    and "\<And>k. k \<in> set ks \<Longrightarrow> sorted_wrt R (f k)"
    and "\<And>k k' x y. less k k' \<Longrightarrow> x \<in> set (f k) \<Longrightarrow> y \<in> set (f k') \<Longrightarrow> R x y"
  shows "sorted_wrt R (concat (map f ks))"
  using assms by (induction ks) (auto simp: sorted_wrt_append)

lemma sorted_wrt_all: "(\<And>x y. x \<in> set xs \<Longrightarrow> y \<in> set xs \<Longrightarrow> R x y) \<Longrightarrow> sorted_wrt R xs"
  by (induction xs) auto


lemma bucketsOf_eq:
  "map_of g b = Some inner \<Longrightarrow>
   bucketsOf inner = concat (map (bucketAt g b) (sort (map fst inner)))"
proof -
  assume "map_of g b = Some inner"
  then have "bucketAt g b = (\<lambda>sub. case map_of inner sub of Some arr \<Rightarrow> arr | None \<Rightarrow> [])"
    by (intro ext) (simp add: bucketAt_def)
  then show ?thesis by (simp add: bucketsOf_def)
qed

lemma bucketAt_absent:
  "map_of g b = Some inner \<Longrightarrow> s \<notin> set (map fst inner) \<Longrightarrow> bucketAt g b s = []"
  by (simp add: bucketAt_def map_of_eq_None_iff [THEN iffD2])

lemma block_elems:
  assumes "keyed key g" and "map_of g b = Some inner" and "t \<in> set (bucketsOf inner)"
  shows "fst (key t) = b"
proof -
  from assms(2,3) obtain s where "t \<in> set (bucketAt g b s)"
    by (auto simp: bucketsOf_eq)
  with assms(1) show ?thesis by (auto simp: keyed_def)
qed

lemma filter_block:
  assumes wf: "wellFormed g" and k: "keyed key g" and gb: "map_of g b = Some inner"
  shows "filter (\<lambda>t. key t = (b, s)) (bucketsOf inner) = bucketAt g b s"
proof -
  from wf gb have d: "distinct (sort (map fst inner))"
    by (simp add: wellFormed_def)
  have other: "filter (\<lambda>t. key t = (b, s)) (bucketAt g b s') = []" if "s' \<noteq> s" for s'
    using k that by (auto simp: keyed_def filter_empty_conv)
  have this_one: "filter (\<lambda>t. key t = (b, s)) (bucketAt g b s) = bucketAt g b s"
    using k by (auto simp: keyed_def filter_id_conv)
  have "filter (\<lambda>t. key t = (b, s)) (concat (map (bucketAt g b) (sort (map fst inner)))) =
      (if s \<in> set (sort (map fst inner))
       then filter (\<lambda>t. key t = (b, s)) (bucketAt g b s) else [])"
    using d other by (intro filter_concat_map_one) auto
  then show ?thesis
    using this_one bucketAt_absent [OF gb, of s] by (simp add: bucketsOf_eq [OF gb])
qed

lemma filter_newOrderOf:
  assumes wf: "wellFormed g" and k: "keyed key g"
  shows "filter (\<lambda>t. key t = (b, s)) (newOrderOf g) = bucketAt g b s"
proof -
  let ?F = "\<lambda>b. case map_of g b of Some inner \<Rightarrow> bucketsOf inner | None \<Rightarrow> []"
  from wf have d: "distinct (sort (map fst g))"
    by (simp add: wellFormed_def)
  have other: "filter (\<lambda>t. key t = (b, s)) (?F b') = []" if "b' \<noteq> b" for b'
  proof (cases "map_of g b'")
    case None
    then show ?thesis by simp
  next
    case (Some inner)
    have "key t \<noteq> (b, s)" if "t \<in> set (bucketsOf inner)" for t
      using block_elems [OF k Some that] \<open>b' \<noteq> b\<close> by (metis fst_conv)
    with Some show ?thesis
      by (simp add: filter_empty_conv)
  qed
  have "filter (\<lambda>t. key t = (b, s)) (concat (map ?F (sort (map fst g)))) =
      (if b \<in> set (sort (map fst g)) then filter (\<lambda>t. key t = (b, s)) (?F b) else [])"
    using d other by (intro filter_concat_map_one) auto
  moreover have "filter (\<lambda>t. key t = (b, s)) (?F b) = bucketAt g b s"
  proof (cases "map_of g b")
    case None
    then show ?thesis by (simp add: bucketAt_def)
  next
    case (Some inner)
    with filter_block [OF wf k Some] show ?thesis by simp
  qed
  moreover have "bucketAt g b s = []" if "b \<notin> set (sort (map fst g))"
    using that by (simp add: bucketAt_def map_of_eq_None_iff [THEN iffD2])
  ultimately show ?thesis by (simp add: newOrderOf_def)
qed

lemma sorted_block:
  assumes wf: "wellFormed g" and k: "keyed key g" and gb: "map_of g b = Some inner"
  shows "sorted_wrt (\<lambda>x y. keyLe (key x) (key y)) (bucketsOf inner)"
proof -
  from wf gb have "sorted_wrt (<) (sort (map fst inner))"
    by (simp add: wellFormed_def strict_sorted_iff)
  moreover have "sorted_wrt (\<lambda>x y. keyLe (key x) (key y)) (bucketAt g b s)" for s
    using k by (intro sorted_wrt_all) (auto simp: keyed_def keyLe_def)
  moreover have "keyLe (key x) (key y)"
    if "s < s'" "x \<in> set (bucketAt g b s)" "y \<in> set (bucketAt g b s')" for s s' x y
    using k that by (auto simp: keyed_def keyLe_def)
  ultimately show ?thesis
    unfolding bucketsOf_eq [OF gb] by (intro sorted_wrt_concat_map) auto
qed

lemma sorted_newOrderOf:
  assumes wf: "wellFormed g" and k: "keyed key g"
  shows "sorted_wrt (\<lambda>x y. keyLe (key x) (key y)) (newOrderOf g)"
proof -
  let ?F = "\<lambda>b. case map_of g b of Some inner \<Rightarrow> bucketsOf inner | None \<Rightarrow> []"
  have elems: "fst (key t) = b" if "t \<in> set (?F b)" for t b
    using that block_elems [OF k] by (cases "map_of g b") auto
  from wf have "sorted_wrt (<) (sort (map fst g))"
    by (simp add: wellFormed_def strict_sorted_iff)
  moreover have "sorted_wrt (\<lambda>x y. keyLe (key x) (key y)) (?F b)" for b
    using sorted_block [OF wf k] by (cases "map_of g b") auto
  moreover have "keyLe (key x) (key y)"
    if "b < b'" "x \<in> set (?F b)" "y \<in> set (?F b')" for b b' x y
    using elems [OF that(2)] elems [OF that(3)] that(1) by (simp add: keyLe_def)
  ultimately show ?thesis
    unfolding newOrderOf_def by (intro sorted_wrt_concat_map) auto
qed

lemma passInv_keyed:
  assumes "passInv parse P g pol"
  shows "keyed (tabKey parse) g"
  unfolding keyed_def
proof (intro allI impI)
  fix b s t
  assume t: "t \<in> set (bucketAt g b s)"
  from assms have "bucketAt g b s = filter (\<lambda>t. tabKey parse t = (b, s)) P
      \<or> bucketAt g b s = []"
    unfolding passInv_def by blast
  with t show "tabKey parse t = (b, s)" by auto
qed


lemma groupStep_total:
  "subdomain host \<notin> set objectPrototypeKeys \<Longrightarrow> \<exists>st'. groupStep host t st = Inr st'"
  by (cases st) (auto simp: groupStep_def pushInto_def Let_def split: option.splits)

lemma groupPass1_total:
  "\<forall>t \<in> set ts. \<exists>u. parse (url t) = Some u \<and> subdomain (hostname u) \<notin> set objectPrototypeKeys
   \<Longrightarrow> \<exists>st'. groupPass1 parse ts st = Inr st'"
proof (induction ts arbitrary: st)
  case Nil
  then show ?case by simp
next
  case (Cons t ts)
  then obtain u where u: "parse (url t) = Some u"
    "subdomain (hostname u) \<notin> set objectPrototypeKeys" by auto
  from groupStep_total [OF u(2)] obtain st1 where "groupStep (hostname u) t st = Inr st1"
    by blast
  moreover have "\<exists>st'. groupPass1 parse ts st1 = Inr st'"
    using Cons.prems by (intro Cons.IH) simp
  ultimately show ?case using u(1) by simp
qed

lemma groupPass_result:
  assumes "groupPass parse pol allTabs = Inr (newOrder, pol')"
  shows "\<exists>g. passInv parse allTabs g pol' \<and> newOrder = newOrderOf g"
proof -
  from assms obtain g where g: "groupPass1 parse allTabs ([], pol) = Inr (g, pol')"
    and n: "newOrder = newOrderOf g"
    by (auto simp: groupPass_def split: sum.splits)
  from groupPass1_inv [OF passInv_init g] have "passInv parse allTabs g pol'" by simp
  with n show ?thesis by blast
qed

lemma groupPass_buckets:
  assumes "groupPass parse pol allTabs = Inr (newOrder, pol')"
  shows "filter (\<lambda>t. tabKey parse t = (b, s)) newOrder =
           filter (\<lambda>t. tabKey parse t = (b, s)) allTabs
         \<or> filter (\<lambda>t. tabKey parse t = (b, s)) newOrder = [] \<and> dead pol' b s"
proof -
  from groupPass_result [OF assms] obtain g where
    inv: "passInv parse allTabs g pol'" and n: "newOrder = newOrderOf g" by blast
  from inv have wf: "wellFormed g" by (simp add: passInv_def)
  have "filter (\<lambda>t. tabKey parse t = (b, s)) newOrder = bucketAt g b s"
    unfolding n by (rule filter_newOrderOf [OF wf passInv_keyed [OF inv]])
  with inv show ?thesis unfolding passInv_def by metis
qed

lemma groupPass_sorted:
  assumes "groupPass parse pol allTabs = Inr (newOrder, pol')"
  shows "sorted_wrt (\<lambda>x y. keyLe (tabKey parse x) (tabKey parse y)) newOrder"
proof -
  from groupPass_result [OF assms] obtain g where
    inv: "passInv parse allTabs g pol'" and n: "newOrder = newOrderOf g" by blast
  from inv have wf: "wellFormed g" by (simp add: passInv_def)
  show ?thesis unfolding n by (rule sorted_newOrderOf [OF wf passInv_keyed [OF inv]])
qed

text \<open>
  C6 fails on the code, through the defect that makes C2 fail. With the tabs b.co.uk,
  constructor and a.com, whose keys are (co.uk, b), (constructor, empty) and
  (a.com, empty), the order emitted is a.com, b.co.uk: the bucket of the base domain
  constructor, the last one in ascending order, is not emitted, where the stable
  partition in ascending order of the keys is a.com, b.co.uk, constructor. With the tabs
  example.com and constructor.example.com the subdomain of the second tab makes the
  first loop throw, and no bucket is emitted.
\<close>

theorem groupTabs_omits_bucket_on_prototype_name:
  "groupTabs whatwgSample
     [\<lparr>url = ''https://b.co.uk/'', active = False, pinned = False, title = [], tabId = 1\<rparr>,
      \<lparr>url = ''http://constructor/'', active = True, pinned = False, title = [], tabId = 2\<rparr>,
      \<lparr>url = ''https://a.com/'', active = False, pinned = False, title = [], tabId = 3\<rparr>] =
   Inr [\<lparr>url = ''https://a.com/'', active = False, pinned = False, title = [], tabId = 3\<rparr>,
        \<lparr>url = ''https://b.co.uk/'', active = False, pinned = False, title = [], tabId = 1\<rparr>]
   \<and> map (tabKey whatwgSample)
     [\<lparr>url = ''https://b.co.uk/'', active = False, pinned = False, title = [], tabId = 1\<rparr>,
      \<lparr>url = ''http://constructor/'', active = True, pinned = False, title = [], tabId = 2\<rparr>,
      \<lparr>url = ''https://a.com/'', active = False, pinned = False, title = [], tabId = 3\<rparr>] =
     [(''co.uk'', ''b''), (''constructor'', []), (''a.com'', [])]
   \<and> sort_key (tabKey whatwgSample)
     [\<lparr>url = ''https://b.co.uk/'', active = False, pinned = False, title = [], tabId = 1\<rparr>,
      \<lparr>url = ''http://constructor/'', active = True, pinned = False, title = [], tabId = 2\<rparr>,
      \<lparr>url = ''https://a.com/'', active = False, pinned = False, title = [], tabId = 3\<rparr>] =
     [\<lparr>url = ''https://a.com/'', active = False, pinned = False, title = [], tabId = 3\<rparr>,
      \<lparr>url = ''https://b.co.uk/'', active = False, pinned = False, title = [], tabId = 1\<rparr>,
      \<lparr>url = ''http://constructor/'', active = True, pinned = False, title = [], tabId = 2\<rparr>]
   \<and> groupTabs whatwgSample
     [\<lparr>url = ''https://example.com/a'', active = True, pinned = False, title = [], tabId = 1\<rparr>,
      \<lparr>url = ''http://constructor.example.com/'', active = False, pinned = False, title = [],
       tabId = 2\<rparr>] = Inl TypeError"
proof (intro conjI)
  let ?T = "[\<lparr>url = ''https://b.co.uk/'', active = False, pinned = False, title = [], tabId = 1\<rparr>,
      \<lparr>url = ''http://constructor/'', active = True, pinned = False, title = [], tabId = 2\<rparr>,
      \<lparr>url = ''https://a.com/'', active = False, pinned = False, title = [], tabId = 3::nat\<rparr>]"
  show "groupTabs whatwgSample ?T =
    Inr [\<lparr>url = ''https://a.com/'', active = False, pinned = False, title = [], tabId = 3\<rparr>,
         \<lparr>url = ''https://b.co.uk/'', active = False, pinned = False, title = [], tabId = 1\<rparr>]"
    by code_simp
  show keys: "map (tabKey whatwgSample) ?T =
      [(''co.uk'', ''b''), (''constructor'', []), (''a.com'', [])]"
    by code_simp
  show "sort_key (tabKey whatwgSample) ?T =
     [\<lparr>url = ''https://a.com/'', active = False, pinned = False, title = [], tabId = 3\<rparr>,
      \<lparr>url = ''https://b.co.uk/'', active = False, pinned = False, title = [], tabId = 1\<rparr>,
      \<lparr>url = ''http://constructor/'', active = True, pinned = False, title = [], tabId = 2\<rparr>]"
    by code_simp
  show "groupTabs whatwgSample
     [\<lparr>url = ''https://example.com/a'', active = True, pinned = False, title = [], tabId = 1\<rparr>,
      \<lparr>url = ''http://constructor.example.com/'', active = False, pinned = False, title = [],
       tabId = 2::nat\<rparr>] = Inl TypeError"
    by code_simp
qed

text \<open>
  C2 fails on the code. A tab whose host is the single label constructor is appended to
  an array stored on the built-in \<^verbatim>\<open>Object\<close> function and is missing from the new order;
  a tab whose subdomain is constructor makes the first loop throw, and no order is
  produced.
\<close>

theorem groupTabs_loses_tab_on_prototype_name:
  "groupTabs whatwgSample
     [\<lparr>url = ''http://constructor/'', active = False, pinned = False, title = [], tabId = 1\<rparr>,
      \<lparr>url = ''https://a.com/'', active = True, pinned = False, title = [], tabId = 2\<rparr>] =
   Inr [\<lparr>url = ''https://a.com/'', active = True, pinned = False, title = [], tabId = 2\<rparr>]
   \<and> groupTabs whatwgSample
     [\<lparr>url = ''http://constructor.example.com/'', active = True, pinned = False, title = [],
       tabId = 1\<rparr>] = Inl TypeError"
  by (simp add: groupTabs_def groupPass_def groupStep_def pushInto_def whatwgSample_def baseDomain_def
      subdomain_def objectPrototypeKeys_def newOrderOf_def bucketsOf_def Let_def)


lemma groupStep_unpolluted:
  "baseDomain host \<notin> set objectPrototypeKeys \<Longrightarrow>
   groupStep host t (g, pol) = Inr (g', pol') \<Longrightarrow> pol' = pol"
  by (auto simp: groupStep_def Let_def split: option.splits sum.splits if_splits)

lemma groupPass1_unpolluted:
  "collisionFree parse ts \<Longrightarrow> groupPass1 parse ts (g, pol) = Inr (g', pol') \<Longrightarrow> pol' = pol"
proof (induction ts arbitrary: g pol)
  case Nil
  then show ?case by simp
next
  case (Cons t ts)
  from Cons.prems(1) obtain u where u: "parse (url t) = Some u"
    "baseDomain (hostname u) \<notin> set objectPrototypeKeys"
    by (auto simp: collisionFree_def)
  from Cons.prems(2) u(1) obtain g1 pol1 where
    step: "groupStep (hostname u) t (g, pol) = Inr (g1, pol1)" and
    rest: "groupPass1 parse ts (g1, pol1) = Inr (g', pol')"
    by (auto split: sum.splits)
  from groupStep_unpolluted [OF u(2) step] have "pol1 = pol" .
  moreover from Cons.prems(1) have "collisionFree parse ts" by (simp add: collisionFree_def)
  from Cons.IH [OF this rest] have "pol' = pol1" .
  ultimately show ?case by simp
qed

lemma mset_eq_if_filters_eq:
  assumes "\<And>k. filter (\<lambda>x. f x = k) xs = filter (\<lambda>x. f x = k) ys"
  shows "mset xs = mset ys"
proof (rule multiset_eqI)
  fix x
  have "count (mset xs) x = count (mset (filter (\<lambda>y. f y = f x) xs)) x"
    by simp
  also have "\<dots> = count (mset (filter (\<lambda>y. f y = f x) ys)) x"
    by (simp only: assms)
  also have "\<dots> = count (mset ys) x"
    by simp
  finally show "count (mset xs) x = count (mset ys) x" .
qed

lemma keyLe_le: "keyLe k k' \<longleftrightarrow> k \<le> k'"
  by (auto simp: keyLe_def less_eq_prod_def)

text \<open>
  Where every URL parses and neither part of any key is a property name of
  \<^verbatim>\<open>Object.prototype\<close>, the order emitted is the stable sort of the tabs by key: the buckets
  in ascending order of base domain and, within a base domain, of subdomain, each bucket
  holding its tabs in their input order.
\<close>

lemma groupTabs_is_stable_sort:
  assumes cf: "collisionFree parse allTabs"
  shows "groupTabs parse allTabs = Inr (sort_key (tabKey parse) allTabs)"
proof -
  from cf have "\<forall>t \<in> set allTabs. \<exists>u. parse (url t) = Some u
      \<and> subdomain (hostname u) \<notin> set objectPrototypeKeys"
    by (auto simp: collisionFree_def)
  from groupPass1_total [OF this, of "([], False)"] obtain g pol' where
    p1: "groupPass1 parse allTabs ([], False) = Inr (g, pol')" by (metis surj_pair)
  from groupPass1_unpolluted [OF cf p1] have pol': "pol' = False" .
  define out where "out = newOrderOf g"
  from p1 pol' have run: "groupPass parse False allTabs = Inr (out, False)"
    by (simp add: groupPass_def out_def)
  have nokey: "filter (\<lambda>t. tabKey parse t = (b, s)) allTabs = []"
    if "b \<in> set objectPrototypeKeys" for b s
  proof -
    have "tabKey parse t \<noteq> (b, s)" if "t \<in> set allTabs" for t
    proof -
      from cf that obtain u where "parse (url t) = Some u"
        "baseDomain (hostname u) \<notin> set objectPrototypeKeys"
        by (auto simp: collisionFree_def)
      with \<open>b \<in> set objectPrototypeKeys\<close> show ?thesis
        by (auto simp: tabKey_def)
    qed
    then show ?thesis by (simp add: filter_empty_conv)
  qed
  have buckets: "filter (\<lambda>t. tabKey parse t = k) out = filter (\<lambda>t. tabKey parse t = k) allTabs"
    for k
  proof -
    obtain b s where k: "k = (b, s)" by (cases k)
    from groupPass_buckets [OF run, of b s] nokey [of b s] show ?thesis
      unfolding k by (auto simp: dead_def)
  qed
  have "sorted_wrt (\<lambda>x y. tabKey parse x \<le> tabKey parse y) out"
    using groupPass_sorted [OF run] by (simp add: keyLe_le)
  then have srt: "sorted (map (tabKey parse) out)"
    by (simp add: sorted_map)
  have ms: "mset out = mset allTabs"
    using buckets by (rule mset_eq_if_filters_eq)
  have "sort_key (tabKey parse) allTabs = out"
  proof (rule properties_for_sort_key [OF ms _ srt])
    fix k
    show "filter (\<lambda>x. tabKey parse k = tabKey parse x) out =
        filter (\<lambda>x. tabKey parse k = tabKey parse x) allTabs"
      using buckets [of "tabKey parse k"] by (simp add: eq_commute)
  qed
  with run show ?thesis by (simp add: groupTabs_def)
qed

text \<open>
  The case C2 is right about: when every URL parses and neither the base domain nor the
  subdomain of any tab is a property name of \<^verbatim>\<open>Object.prototype\<close>, the new order is the
  stable sort of the tabs by key, hence a permutation of the input of the same length,
  and grouping it again returns it unchanged.
\<close>

theorem groupTabs_permutation_without_prototype_names:
  assumes "collisionFree parse allTabs"
  shows "\<exists>newOrder. groupTabs parse allTabs = Inr newOrder
    \<and> mset newOrder = mset allTabs
    \<and> length newOrder = length allTabs
    \<and> groupTabs parse newOrder = Inr newOrder"
proof -
  let ?out = "sort_key (tabKey parse) allTabs"
  have r: "groupTabs parse allTabs = Inr ?out"
    by (rule groupTabs_is_stable_sort [OF assms])
  have "collisionFree parse ?out"
    using assms by (simp add: collisionFree_def)
  then have "groupTabs parse ?out = Inr (sort_key (tabKey parse) ?out)"
    by (rule groupTabs_is_stable_sort)
  also have "sort_key (tabKey parse) ?out = ?out"
    by (rule sort_key_id_if_sorted) simp
  finally have "groupTabs parse ?out = Inr ?out" .
  with r show ?thesis by simp
qed

theorem groupTabs_permutation_without_prototype_names_witness:
  "collisionFree whatwgSample
     [\<lparr>url = ''https://b.co.uk/'', active = False, pinned = False, title = [], tabId = 1\<rparr>,
      \<lparr>url = ''https://a.com/'', active = True, pinned = False, title = [], tabId = 2\<rparr>]
   \<and> groupTabs whatwgSample
     [\<lparr>url = ''https://b.co.uk/'', active = False, pinned = False, title = [], tabId = 1\<rparr>,
      \<lparr>url = ''https://a.com/'', active = True, pinned = False, title = [], tabId = 2\<rparr>] =
     Inr [\<lparr>url = ''https://a.com/'', active = True, pinned = False, title = [], tabId = 2\<rparr>,
          \<lparr>url = ''https://b.co.uk/'', active = False, pinned = False, title = [], tabId = 1\<rparr>]"
proof -
  let ?T = "[\<lparr>url = ''https://b.co.uk/'', active = False, pinned = False, title = [], tabId = 1\<rparr>,
      \<lparr>url = ''https://a.com/'', active = True, pinned = False, title = [], tabId = 2::nat\<rparr>]"
  have cf: "collisionFree whatwgSample ?T"
    by (simp add: collisionFree_def whatwgSample_def baseDomain_def subdomain_def
        objectPrototypeKeys_def Let_def)
  have run: "groupTabs whatwgSample ?T =
     Inr [\<lparr>url = ''https://a.com/'', active = True, pinned = False, title = [], tabId = 2\<rparr>,
          \<lparr>url = ''https://b.co.uk/'', active = False, pinned = False, title = [], tabId = 1\<rparr>]"
    by (simp add: groupTabs_def groupPass_def groupStep_def pushInto_def whatwgSample_def
        baseDomain_def subdomain_def objectPrototypeKeys_def newOrderOf_def bucketsOf_def Let_def)
  from groupTabs_permutation_without_prototype_names [OF cf] cf run show ?thesis by blast
qed

end
